theory Spec2Isabelle
  imports Main "HOL-Library.AList"
begin

section \<open>Values and errors of the Python program\<close>

text \<open>
  The backend of \<^verbatim>\<open>perceval/backends/phabricator.py\<close> works on what \<^verbatim>\<open>json.loads\<close>
  returns: \<^verbatim>\<open>None\<close>, booleans, numbers, strings, lists and dictionaries. A dictionary is
  an association list in insertion order (Python dictionaries keep it); numbers are
  integers (no claim depends on a fraction).
\<close>

datatype json =
    JNull
  | JBool bool
  | JNum int
  | JStr string
  | JArr "json list"
  | JObj "(string \<times> json) list"

text \<open>
  Every exception the code can raise is a value. \<open>ConnectionError\<close> and \<open>HTTPError\<close> come
  from \<^verbatim>\<open>requests.post\<close> and \<^verbatim>\<open>raise_for_status\<close>, \<open>ValueError\<close> from the JSON decoder,
  \<open>KeyError\<close>, \<open>TypeError\<close>, \<open>IndexError\<close> and \<open>AttributeError\<close> from subscripts,
  iteration and method lookup on decoded values, and \<open>ConduitError error code\<close> is the
  backend's own exception, built from the envelope's \<^verbatim>\<open>error_info\<close> and \<^verbatim>\<open>error_code\<close>.
\<close>

datatype error =
    ConnectionError
  | HTTPError nat
  | ValueError
  | KeyError
  | TypeError
  | IndexError
  | AttributeError
  | ConduitError json json

text \<open>Python's truth value of a decoded value (\<^verbatim>\<open>if x\<close>, \<^verbatim>\<open>if not x\<close>).\<close>

fun truthy :: "json \<Rightarrow> bool" where
  "truthy JNull = False"
| "truthy (JBool b) = b"
| "truthy (JNum n) = (n \<noteq> 0)"
| "truthy (JStr s) = (s \<noteq> [])"
| "truthy (JArr xs) = (xs \<noteq> [])"
| "truthy (JObj kvs) = (kvs \<noteq> [])"

text \<open>\<^verbatim>\<open>x[k]\<close> for a string key: only a dictionary accepts it, and the key must be there.\<close>

fun getitem :: "json \<Rightarrow> string \<Rightarrow> error + json" where
  "getitem (JObj kvs) k = (case map_of kvs k of None \<Rightarrow> Inl KeyError | Some v \<Rightarrow> Inr v)"
| "getitem _ k = Inl TypeError"

text \<open>
  \<^verbatim>\<open>x[k] = v\<close> for a string key: the dictionary is changed in place, an existing key
  keeps its position and a new key goes last.
\<close>

fun setitem :: "json \<Rightarrow> string \<Rightarrow> json \<Rightarrow> error + json" where
  "setitem (JObj kvs) k v = Inr (JObj (AList.update k v kvs))"
| "setitem _ k v = Inl TypeError"

text \<open>
  \<^verbatim>\<open>for x in v\<close>: a list gives its elements, a dictionary its keys, a string its
  characters; nothing else is iterable.
\<close>

fun iter :: "json \<Rightarrow> error + json list" where
  "iter (JArr xs) = Inr xs"
| "iter (JObj kvs) = Inr (map (\<lambda>kv. JStr (fst kv)) kvs)"
| "iter (JStr s) = Inr (map (\<lambda>c. JStr [c]) s)"
| "iter _ = Inl TypeError"

text \<open>\<^verbatim>\<open>xs[0]\<close> on a Python list.\<close>

fun first :: "json list \<Rightarrow> error + json" where
  "first [] = Inl IndexError"
| "first (x # xs) = Inr x"

text \<open>
  Keys of the dictionary \<^verbatim>\<open>self._users\<close>: lists and dictionaries are unhashable
  (\<open>TypeError\<close>), and \<^verbatim>\<open>True\<close>, \<^verbatim>\<open>False\<close> are the same keys as \<^verbatim>\<open>1\<close>, \<^verbatim>\<open>0\<close>.
\<close>

fun hashable :: "json \<Rightarrow> bool" where
  "hashable (JArr xs) = False"
| "hashable (JObj kvs) = False"
| "hashable _ = True"

fun dict_key :: "json \<Rightarrow> json" where
  "dict_key (JBool b) = JNum (if b then 1 else 0)"
| "dict_key j = j"

text \<open>A comprehension \<^verbatim>\<open>[f(x) for x in xs]\<close> whose body may raise stops at the first error.\<close>

fun map_raise :: "('a \<Rightarrow> error + 'b) \<Rightarrow> 'a list \<Rightarrow> error + 'b list" where
  "map_raise f [] = Inr []"
| "map_raise f (x # xs) =
     (case f x of
        Inl e \<Rightarrow> Inl e
      | Inr y \<Rightarrow> (case map_raise f xs of Inl e \<Rightarrow> Inl e | Inr ys \<Rightarrow> Inr (y # ys)))"

section \<open>The environment and the state of a backend instance\<close>

text \<open>
  One HTTP request of \<^verbatim>\<open>ConduitClient._call\<close>: the Conduit method of the URL and the
  parameters dictionary that is serialised into the form field \<^verbatim>\<open>params\<close>.
\<close>

record request =
  method_name :: string
  params :: json

text \<open>What \<^verbatim>\<open>requests.post\<close> gives: no response (it raises), or a status and a body.\<close>

datatype reply = NoReply | Reply nat string

text \<open>
  What the program does not contain is a parameter: the server (\<open>net env n req\<close> is the
  answer to the request \<open>req\<close> when \<open>n\<close> requests were sent before it, so a server with
  state is covered), the JSON decoder \<^verbatim>\<open>json.loads\<close> (\<open>None\<close> when it raises), Python's
  \<^verbatim>\<open>str\<close> and the API token of the client.
\<close>

record env =
  net :: "nat \<Rightarrow> request \<Rightarrow> reply"
  loads :: "string \<Rightarrow> json option"
  py_str :: "json \<Rightarrow> string"
  api_token :: string

text \<open>
  What a consumer of the generator and the outside world can observe, in the order in
  which it happens: a request sent, a raw response pushed on the cache queue, the queue
  flushed or purged, a task yielded.
\<close>

datatype event = Call request | Push string | Flush | Purge | Yield json

text \<open>
  The mutable state of a \<^verbatim>\<open>Phabricator\<close> instance: the dictionary \<^verbatim>\<open>self._users\<close>, the
  cache queue and the durable cache it is flushed to, the number of requests sent so
  far, and the log of events.
\<close>

record state =
  users :: "(json \<times> json) list"
  cache_queue :: "string list"
  stored :: "string list list"
  ncalls :: nat
  trace :: "event list"

text \<open>\<^verbatim>\<open>Phabricator.__init__\<close>: \<^verbatim>\<open>self._users = {}\<close>, nothing queued, nothing sent.\<close>

definition init :: state where
  "init = \<lparr>users = [], cache_queue = [], stored = [], ncalls = 0, trace = []\<rparr>"

text \<open>
  A method of the backend takes the state and returns a result or an error, and the
  state as it is at that moment: what was sent, pushed and yielded before an exception
  stays.
\<close>

type_synonym 'a m = "state \<Rightarrow> (error + 'a) \<times> state"

definition return :: "'a \<Rightarrow> 'a m" where
  "return x s = (Inr x, s)"

definition throw :: "error \<Rightarrow> 'a m" where
  "throw e s = (Inl e, s)"

definition lift :: "error + 'a \<Rightarrow> 'a m" where
  "lift r s = (r, s)"

definition bind :: "'a m \<Rightarrow> ('a \<Rightarrow> 'b m) \<Rightarrow> 'b m" where
  "bind f g s = (case f s of (Inl e, s') \<Rightarrow> (Inl e, s') | (Inr x, s') \<Rightarrow> g x s')"

text \<open>A \<^verbatim>\<open>for\<close> loop over a list whose body has effects and may raise.\<close>

fun mapM :: "('a \<Rightarrow> 'b m) \<Rightarrow> 'a list \<Rightarrow> 'b list m" where
  "mapM f [] = return []"
| "mapM f (x # xs) = bind (f x) (\<lambda>y. bind (mapM f xs) (\<lambda>ys. return (y # ys)))"

definition emit :: "event \<Rightarrow> unit m" where
  "emit e s = (Inr (), s\<lparr>trace := trace s @ [e]\<rparr>)"

section \<open>The cache queue\<close>

text \<open>
  Modelled from the spec: \<^verbatim>\<open>_push_cache_queue\<close>, \<^verbatim>\<open>_flush_cache_queue\<close> and
  \<^verbatim>\<open>_purge_cache_queue\<close> are inherited from \<^verbatim>\<open>Backend\<close> (\<^verbatim>\<open>perceval/backend.py\<close>), which
  is not among the sources. The spec (4.3): push appends to the in-flight sequence; flush
  persists the entire queued sequence to the durable cache and clears it; purge discards
  the entries without persisting them.
\<close>

definition push_cache_queue :: "string \<Rightarrow> unit m" where
  "push_cache_queue item s =
     (Inr (), s\<lparr>cache_queue := cache_queue s @ [item], trace := trace s @ [Push item]\<rparr>)"

definition flush_cache_queue :: "unit m" where
  "flush_cache_queue s =
     (Inr (), s\<lparr>stored := stored s @ [cache_queue s], cache_queue := [],
                trace := trace s @ [Flush]\<rparr>)"

definition purge_cache_queue :: "unit m" where
  "purge_cache_queue s = (Inr (), s\<lparr>cache_queue := [], trace := trace s @ [Purge]\<rparr>)"

section \<open>ConduitClient\<close>

definition MANIPHEST_TASKS :: string where "MANIPHEST_TASKS = ''maniphest.search''"
definition MANIPHEST_TRANSACTIONS :: string where
  "MANIPHEST_TRANSACTIONS = ''maniphest.gettasktransactions''"
definition PHAB_USERS :: string where "PHAB_USERS = ''user.query''"

definition PAFTER :: string where "PAFTER = ''after''"
definition PCONSTRAINTS :: string where "PCONSTRAINTS = ''constraints''"
definition PHIDS :: string where "PHIDS = ''phids''"
definition PIDS :: string where "PIDS = ''ids''"
definition PORDER :: string where "PORDER = ''order''"
definition PMODIFIED_START :: string where "PMODIFIED_START = ''modifiedStart''"
definition VOUTDATED :: string where "VOUTDATED = ''outdated''"

text \<open>\<^verbatim>\<open>params['__conduit__'] = {'token' : self.api_token}\<close>, done on the caller's dictionary.\<close>

definition conduit_params :: "env \<Rightarrow> (string \<times> json) list \<Rightarrow> (string \<times> json) list" where
  "conduit_params env ps = AList.update ''__conduit__'' (JObj [(''token'', JStr (api_token env))]) ps"

text \<open>\<^verbatim>\<open>r.raise_for_status()\<close> raises for the client and server error statuses.\<close>

definition http_error :: "nat \<Rightarrow> bool" where
  "http_error status \<longleftrightarrow> 400 \<le> status \<and> status < 600"

text \<open>
  What \<^verbatim>\<open>_call\<close> does with the response, in the order of the source: the status check,
  the decoding \<^verbatim>\<open>r.json()\<close>, the test of \<^verbatim>\<open>result['error_code']\<close>, the exception built from
  \<^verbatim>\<open>result['error_info']\<close> (evaluated first) and the code, and at last \<^verbatim>\<open>r.text\<close>.
\<close>

definition check_reply :: "env \<Rightarrow> reply \<Rightarrow> error + string" where
  "check_reply env r =
     (case r of
        NoReply \<Rightarrow> Inl ConnectionError
      | Reply status text \<Rightarrow>
          if http_error status then Inl (HTTPError status)
          else (case loads env text of
                  None \<Rightarrow> Inl ValueError
                | Some result \<Rightarrow>
                    (case getitem result ''error_code'' of
                       Inl e \<Rightarrow> Inl e
                     | Inr code \<Rightarrow>
                         if truthy code
                         then (case getitem result ''error_info'' of
                                 Inl e \<Rightarrow> Inl e
                               | Inr info \<Rightarrow> Inl (ConduitError info code))
                         else Inr text)))"

text \<open>\<^verbatim>\<open>ConduitClient._call\<close>: one request is sent, whatever comes of it.\<close>

definition conduit_call :: "env \<Rightarrow> string \<Rightarrow> (string \<times> json) list \<Rightarrow> string m" where
  "conduit_call env meth ps s =
     (let req = \<lparr>method_name = meth, params = JObj (conduit_params env ps)\<rparr>
      in (check_reply env (net env (ncalls s) req),
          s\<lparr>ncalls := Suc (ncalls s), trace := trace s @ [Call req]\<rparr>))"

text \<open>\<^verbatim>\<open>ConduitClient.transactions\<close> and \<^verbatim>\<open>ConduitClient.users\<close>.\<close>

definition transactions :: "env \<Rightarrow> json list \<Rightarrow> string m" where
  "transactions env phids = conduit_call env MANIPHEST_TRANSACTIONS [(PIDS, JArr phids)]"

definition client_users :: "env \<Rightarrow> json list \<Rightarrow> string m" where
  "client_users env phids = conduit_call env PHAB_USERS [(PHIDS, JArr phids)]"

text \<open>
  The part of \<^verbatim>\<open>ConduitClient.tasks\<close> after its \<^verbatim>\<open>yield\<close>: the cursor
  \<^verbatim>\<open>j['result']['cursor']['after']\<close> of the page just yielded.
\<close>

definition cursor_after :: "env \<Rightarrow> string \<Rightarrow> error + json" where
  "cursor_after env r =
     (case loads env r of
        None \<Rightarrow> Inl ValueError
      | Some j \<Rightarrow>
          (case getitem j ''result'' of
             Inl e \<Rightarrow> Inl e
           | Inr res \<Rightarrow>
               (case getitem res ''cursor'' of
                  Inl e \<Rightarrow> Inl e
                | Inr c \<Rightarrow> getitem c ''after'')))"

section \<open>Phabricator\<close>

text \<open>The three static parsers.\<close>

definition parse_tasks :: "env \<Rightarrow> string \<Rightarrow> error + json list" where
  "parse_tasks env raw_json =
     (case loads env raw_json of
        None \<Rightarrow> Inl ValueError
      | Some results \<Rightarrow>
          (case getitem results ''result'' of
             Inl e \<Rightarrow> Inl e
           | Inr res \<Rightarrow>
               (case getitem res ''data'' of
                  Inl e \<Rightarrow> Inl e
                | Inr tasks \<Rightarrow> iter tasks)))"

definition parse_tasks_transactions :: "env \<Rightarrow> string \<Rightarrow> error + json" where
  "parse_tasks_transactions env raw_json =
     (case loads env raw_json of
        None \<Rightarrow> Inl ValueError
      | Some results \<Rightarrow> getitem results ''result'')"

definition parse_users :: "env \<Rightarrow> string \<Rightarrow> error + json list" where
  "parse_users env raw_json =
     (case loads env raw_json of
        None \<Rightarrow> Inl ValueError
      | Some results \<Rightarrow>
          (case getitem results ''result'' of
             Inl e \<Rightarrow> Inl e
           | Inr us \<Rightarrow> iter us))"

text \<open>\<^verbatim>\<open>__fetch_and_parse_users\<close>: request, push the raw response, parse.\<close>

definition fetch_and_parse_users :: "env \<Rightarrow> json list \<Rightarrow> json list m" where
  "fetch_and_parse_users env users_ids =
     bind (client_users env users_ids) (\<lambda>raw_json.
     bind (push_cache_queue raw_json) (\<lambda>_.
     lift (parse_users env raw_json)))"

text \<open>
  \<^verbatim>\<open>__get_or_fetch_user\<close>: \<^verbatim>\<open>user_id in self._users\<close> hashes the identifier first; a hit
  returns the stored record; a miss fetches, takes element \<^verbatim>\<open>[0]\<close> and stores it.
\<close>

definition get_or_fetch_user :: "env \<Rightarrow> json \<Rightarrow> json m" where
  "get_or_fetch_user env user_id s =
     (if \<not> hashable user_id then (Inl TypeError, s)
      else (case map_of (users s) (dict_key user_id) of
              Some user \<Rightarrow> (Inr user, s)
            | None \<Rightarrow>
                bind (fetch_and_parse_users env [user_id]) (\<lambda>us.
                bind (lift (first us)) (\<lambda>user s'.
                  (Inr user, s'\<lparr>users := AList.update (dict_key user_id) user (users s')\<rparr>))) s))"

text \<open>
  The body of the inner loop of \<^verbatim>\<open>__fetch_and_parse_tasks_transactions\<close>: the transaction
  \<open>tt\<close> gets its \<^verbatim>\<open>authorData\<close>, in place.
\<close>

definition resolve_transaction :: "env \<Rightarrow> json \<Rightarrow> json m" where
  "resolve_transaction env tt =
     bind (lift (getitem tt ''authorPHID'')) (\<lambda>author_id.
     bind (get_or_fetch_user env author_id) (\<lambda>author.
     lift (setitem tt ''authorData'' author)))"

text \<open>
  \<^verbatim>\<open>for tt in trans\<close> (\<open>trs\<close> here): the elements of a list are changed in place. The keys of a
  dictionary and the characters of a string are strings, on which the subscript of the
  body raises, so such a value passes only when it is empty, and then unchanged.
\<close>

definition resolve_transactions :: "env \<Rightarrow> json \<Rightarrow> json m" where
  "resolve_transactions env trs =
     bind (lift (iter trs)) (\<lambda>tts.
     bind (mapM (resolve_transaction env) tts) (\<lambda>tts'.
     return (case trs of JArr _ \<Rightarrow> JArr tts' | _ \<Rightarrow> trs)))"

text \<open>\<^verbatim>\<open>tasks_trans.values()\<close>: only a dictionary has the method.\<close>

fun dict_items :: "json \<Rightarrow> error + (string \<times> json) list" where
  "dict_items (JObj kvs) = Inr kvs"
| "dict_items _ = Inl AttributeError"

definition fetch_and_parse_tasks_transactions :: "env \<Rightarrow> json list \<Rightarrow> json m" where
  "fetch_and_parse_tasks_transactions env tasks_ids =
     bind (transactions env tasks_ids) (\<lambda>raw_json.
     bind (push_cache_queue raw_json) (\<lambda>_.
     bind (lift (parse_tasks_transactions env raw_json)) (\<lambda>tasks_trans.
     bind (lift (dict_items tasks_trans)) (\<lambda>kvs.
     bind (mapM (resolve_transactions env) (map snd kvs)) (\<lambda>vs.
     return (JObj (zip (map fst kvs) vs)))))))"

text \<open>\<^verbatim>\<open>task['fields'][k] = v\<close>: the inner dictionary is changed in place.\<close>

definition set_field :: "json \<Rightarrow> string \<Rightarrow> json \<Rightarrow> error + json" where
  "set_field task k v =
     (case getitem task ''fields'' of
        Inl e \<Rightarrow> Inl e
      | Inr flds \<Rightarrow>
          (case setitem flds k v of
             Inl e \<Rightarrow> Inl e
           | Inr flds' \<Rightarrow> setitem task ''fields'' flds'))"

definition get_field :: "json \<Rightarrow> string \<Rightarrow> error + json" where
  "get_field task k =
     (case getitem task ''fields'' of Inl e \<Rightarrow> Inl e | Inr flds \<Rightarrow> getitem flds k)"

text \<open>The body of the loop \<^verbatim>\<open>for task in tasks\<close> of \<^verbatim>\<open>__fetch_tasks\<close>.\<close>

definition enrich_task :: "env \<Rightarrow> json \<Rightarrow> json \<Rightarrow> unit m" where
  "enrich_task env tasks_trans task =
     bind (lift (getitem task ''id'')) (\<lambda>task_id.
     bind (lift (get_field task ''authorPHID'')) (\<lambda>author_id.
     bind (lift (get_field task ''ownerPHID'')) (\<lambda>owner_id.
     bind (get_or_fetch_user env author_id) (\<lambda>author.
     bind (lift (set_field task ''authorData'' author)) (\<lambda>task1.
     bind (get_or_fetch_user env owner_id) (\<lambda>owner.
     bind (lift (set_field task1 ''ownerData'' owner)) (\<lambda>task2.
     bind (lift (getitem tasks_trans (py_str env task_id))) (\<lambda>trs.
     bind (lift (setitem task2 ''transactions'' trs)) (\<lambda>task3.
     emit (Yield task3))))))))))"

text \<open>
  One page of \<^verbatim>\<open>__fetch_tasks\<close> after the test for the empty page: the identifiers, the
  transactions of the whole page, then the tasks one by one.
\<close>

definition process_page :: "env \<Rightarrow> json list \<Rightarrow> unit m" where
  "process_page env tasks =
     bind (lift (map_raise (\<lambda>t. getitem t ''id'') tasks)) (\<lambda>tasks_ids.
     bind (fetch_and_parse_tasks_transactions env tasks_ids) (\<lambda>tasks_trans.
     bind (mapM (enrich_task env tasks_trans) tasks) (\<lambda>_.
     return ())))"

text \<open>
  \<^verbatim>\<open>__fetch_tasks\<close> drives the generator \<^verbatim>\<open>ConduitClient.tasks\<close>: the \<^verbatim>\<open>while True\<close> of
  the generator and the \<^verbatim>\<open>for\<close> of its consumer run in lockstep, one request per round.
  A round ends in one of three ways: the consumer's \<^verbatim>\<open>break\<close> on an empty page, the
  generator's \<^verbatim>\<open>break\<close> on an empty cursor, or the next round with the cursor stored in
  the parameters (which \<^verbatim>\<open>_call\<close> has already extended by the token).
\<close>

datatype step = Break | Exhausted | Next "(string \<times> json) list"

definition page_round :: "env \<Rightarrow> (string \<times> json) list \<Rightarrow> step m" where
  "page_round env ps =
     bind (conduit_call env MANIPHEST_TASKS ps) (\<lambda>raw_tasks.
     bind (push_cache_queue raw_tasks) (\<lambda>_.
     bind (lift (parse_tasks env raw_tasks)) (\<lambda>tasks.
     if tasks = [] then return Break
     else
       bind (process_page env tasks) (\<lambda>_.
       bind flush_cache_queue (\<lambda>_.
       bind (lift (cursor_after env raw_tasks)) (\<lambda>after.
       if \<not> truthy after then return Exhausted
       else return (Next (AList.update PAFTER after (conduit_params env ps)))))))))"

text \<open>
  The loop has no bound of its own (the server decides), so the model counts rounds:
  \<open>None\<close> says that the rounds allowed were used up with the loop still running,
  \<open>Some (Inr ())\<close> is the normal end of the generator, \<open>Some (Inl e)\<close> an exception.
\<close>

fun fetch_tasks :: "env \<Rightarrow> nat \<Rightarrow> (string \<times> json) list \<Rightarrow> state \<Rightarrow> (error + unit) option \<times> state" where
  "fetch_tasks env 0 ps s = (None, s)"
| "fetch_tasks env (Suc n) ps s =
     (case page_round env ps s of
        (Inl e, s') \<Rightarrow> (Some (Inl e), s')
      | (Inr Break, s') \<Rightarrow> (Some (Inr ()), s')
      | (Inr Exhausted, s') \<Rightarrow> (Some (Inr ()), s')
      | (Inr (Next ps'), s') \<Rightarrow> fetch_tasks env n ps' s')"

text \<open>
  \<^verbatim>\<open>Phabricator.fetch\<close> without its decorator: purge the queue, then the loop with the
  parameters \<^verbatim>\<open>ConduitClient.tasks\<close> starts from (\<open>tasks_params\<close>). \<open>ts\<close> is the epoch time
  of \<^verbatim>\<open>from_date\<close>.
\<close>

definition tasks_params :: "int \<Rightarrow> (string \<times> json) list" where
  "tasks_params ts = [(PCONSTRAINTS, JObj [(PMODIFIED_START, JNum ts)]), (PORDER, JStr VOUTDATED)]"

definition fetch :: "env \<Rightarrow> nat \<Rightarrow> int \<Rightarrow> state \<Rightarrow> (error + unit) option \<times> state" where
  "fetch env n ts s = fetch_tasks env n (tasks_params ts) (snd (purge_cache_queue s))"

text \<open>
  Whether the loop is left by the \<^verbatim>\<open>break\<close> of \<^verbatim>\<open>__fetch_tasks\<close> on an empty page, within
  \<open>n\<close> rounds (and not by the end of the generator, an exception, or not at all).
\<close>

fun left_by_break :: "env \<Rightarrow> nat \<Rightarrow> (string \<times> json) list \<Rightarrow> state \<Rightarrow> bool" where
  "left_by_break env 0 ps s = False"
| "left_by_break env (Suc n) ps s =
     (case page_round env ps s of
        (Inr Break, s') \<Rightarrow> True
      | (Inr (Next ps'), s') \<Rightarrow> left_by_break env n ps' s'
      | _ \<Rightarrow> False)"


section \<open>Reading the log\<close>

text \<open>The requests sent, the raw responses pushed and the tasks yielded, in order.\<close>

fun called :: "event list \<Rightarrow> request list" where
  "called [] = []"
| "called (Call r # es) = r # called es"
| "called (e # es) = called es"


fun yielded :: "event list \<Rightarrow> json list" where
  "yielded [] = []"
| "yielded (Yield t # es) = t # yielded es"
| "yielded (e # es) = yielded es"

text \<open>What a run that took the state from \<open>s\<close> to \<open>s'\<close> added to the log.\<close>

definition new_events :: "state \<Rightarrow> state \<Rightarrow> event list" where
  "new_events s s' = drop (length (trace s)) (trace s')"

text \<open>The identifiers a request asks \<^verbatim>\<open>user.query\<close> for (none for another method).\<close>

definition lookup_of :: "request \<Rightarrow> json list" where
  "lookup_of req =
     (if method_name req = PHAB_USERS
      then (case getitem (params req) PHIDS of Inr (JArr ids) \<Rightarrow> ids | _ \<Rightarrow> [])
      else [])"

definition lookups :: "event list \<Rightarrow> json list" where
  "lookups es = concat (map lookup_of (called es))"

text \<open>The task a successful run of the loop body yields, written out.\<close>

definition enriched_task :: "(string \<times> json) list \<Rightarrow> (string \<times> json) list \<Rightarrow> json \<Rightarrow> json \<Rightarrow> json \<Rightarrow> json" where
  "enriched_task kvs fs author owner trs =
     JObj (AList.update ''transactions'' trs
       (AList.update ''fields''
          (JObj (AList.update ''ownerData'' owner (AList.update ''authorData'' author fs))) kvs))"

section \<open>Relations between the state before and after a run\<close>

text \<open>
  A property of a run is a relation \<open>R s b s'\<close> between the state before, whether the run
  ended without an exception (\<open>b\<close>), and the state after. A relation that holds of an
  empty run and composes along a run that goes on after a success (\<open>stable\<close>) holds of
  every method built with \<open>bind\<close> and \<open>mapM\<close> once the elementary steps have it
  (\<open>preserves\<close>, \<open>upholds\<close>).
\<close>

definition stable :: "(state \<Rightarrow> bool \<Rightarrow> state \<Rightarrow> bool) \<Rightarrow> bool" where
  "stable R \<longleftrightarrow> (\<forall>s b. R s b s) \<and> (\<forall>s s1 s2 b. R s True s1 \<longrightarrow> R s1 b s2 \<longrightarrow> R s b s2)"

definition preserves :: "(state \<Rightarrow> bool \<Rightarrow> state \<Rightarrow> bool) \<Rightarrow> 'a m \<Rightarrow> bool" where
  "preserves R f \<longleftrightarrow> (\<forall>s. R s (\<not> isl (fst (f s))) (snd (f s)))"

text \<open>A request together with the push of its raw response, which always follows it.\<close>

definition pushing :: "string m \<Rightarrow> string m" where
  "pushing call = bind call (\<lambda>raw. bind (push_cache_queue raw) (\<lambda>_. return raw))"

definition upholds :: "env \<Rightarrow> (state \<Rightarrow> bool \<Rightarrow> state \<Rightarrow> bool) \<Rightarrow> bool" where
  "upholds env R \<longleftrightarrow>
     stable R \<and>
     (\<forall>ps. preserves R (pushing (conduit_call env MANIPHEST_TASKS ps))) \<and>
     (\<forall>ids. preserves R (pushing (transactions env ids))) \<and>
     (\<forall>uid. preserves R (get_or_fetch_user env uid))"


definition user_request :: "env \<Rightarrow> json \<Rightarrow> request" where
  "user_request env user_id =
     \<lparr>method_name = PHAB_USERS, params = JObj (conduit_params env [(PHIDS, JArr [user_id])])\<rparr>"

definition advances :: "(event \<Rightarrow> bool) \<Rightarrow> state \<Rightarrow> bool \<Rightarrow> state \<Rightarrow> bool" where
  "advances P s b s' \<longleftrightarrow>
     trace s' = trace s @ new_events s s' \<and> list_all P (new_events s s')"




definition lookup_keys :: "event list \<Rightarrow> json list" where
  "lookup_keys es = map dict_key (lookups es)"

definition cached :: "state \<Rightarrow> json set" where
  "cached s = fst ` set (users s)"

definition memo :: "state \<Rightarrow> bool \<Rightarrow> state \<Rightarrow> bool" where
  "memo s b s' \<longleftrightarrow>
     trace s' = trace s @ new_events s s' \<and>
     distinct (lookup_keys (new_events s s')) \<and>
     set (lookup_keys (new_events s s')) \<inter> cached s = {} \<and>
     cached s \<subseteq> cached s' \<and>
     (b \<longrightarrow> set (lookup_keys (new_events s s')) \<subseteq> cached s')"

definition keeps :: "state \<Rightarrow> bool \<Rightarrow> state \<Rightarrow> bool" where
  "keeps s b s' \<longleftrightarrow> (\<forall>k v. map_of (users s) k = Some v \<longrightarrow> map_of (users s') k = Some v)"


section \<open>What a yielded task carries\<close>







section \<open>A sample server\<close>

text \<open>
  Two pages of tasks (1 and 2, then 3) and an empty third page; tasks 1 and 3 are by
  \<open>U1\<close>, task 2 by \<open>U2\<close>. The cursor \<open>8\<close> leads to a page with task 3 and no cursor after
  it, and the tasks modified since time 5 are one page with task 3 by \<open>U0\<close>, whose user
  record is \<^verbatim>\<open>null\<close>; other requests are answered by an error envelope (transactions), by user records
  that are \<^verbatim>\<open>null\<close> or missing, by a server error, by a body that is no JSON or by an
  envelope without \<^verbatim>\<open>error_code\<close>. The decoder is the table of \<^verbatim>\<open>json.loads\<close> on the texts this
  server sends, \<open>sample_str\<close> the table of \<^verbatim>\<open>str\<close> on the identifiers it uses.
\<close>

definition page1 :: string where
  \<open>page1 = ''{"result": {"data": [{"id": 1, "fields": {"authorPHID": "U1", "ownerPHID": "U1"}}, {"id": 2, "fields": {"authorPHID": "U2", "ownerPHID": "U2"}}], "cursor": {"after": "2"}}, "error_code": null}''\<close>

definition page2 :: string where
  \<open>page2 = ''{"result": {"data": [{"id": 3, "fields": {"authorPHID": "U1", "ownerPHID": "U1"}}], "cursor": {"after": "3"}}, "error_code": null}''\<close>

definition page3 :: string where
  \<open>page3 = ''{"result": {"data": [], "cursor": {"after": null}}, "error_code": null}''\<close>

definition page_last :: string where
  \<open>page_last = ''{"result": {"data": [{"id": 3, "fields": {"authorPHID": "U1", "ownerPHID": "U1"}}], "cursor": {"after": null}}, "error_code": null}''\<close>

definition page_null :: string where
  \<open>page_null = ''{"result": {"data": [{"id": 3, "fields": {"authorPHID": "U0", "ownerPHID": "U0"}}], "cursor": {"after": null}}, "error_code": null}''\<close>

definition trans12 :: string where
  \<open>trans12 = ''{"result": {"1": [{"authorPHID": "U1"}], "2": []}, "error_code": null}''\<close>

definition trans3 :: string where
  \<open>trans3 = ''{"result": {"3": []}, "error_code": null}''\<close>

definition trans_error :: string where
  \<open>trans_error = ''{"error_code": "ERR-CONDUIT-CORE", "error_info": "Task does not exist", "result": null}''\<close>

definition user1 :: string where
  \<open>user1 = ''{"result": [{"phid": "U1"}], "error_code": null}''\<close>

definition user2 :: string where
  \<open>user2 = ''{"result": [{"phid": "U2"}], "error_code": null}''\<close>

definition user_null :: string where
  \<open>user_null = ''{"result": [null], "error_code": null}''\<close>

definition user_none :: string where
  \<open>user_none = ''{"result": [], "error_code": null}''\<close>

definition no_code :: string where
  \<open>no_code = ''{"result": []}''\<close>

definition not_json :: string where
  \<open>not_json = ''<html>Login</html>''\<close>

definition sample_task :: "int \<Rightarrow> string \<Rightarrow> json" where
  "sample_task n u = JObj [(''id'', JNum n),
                    (''fields'', JObj [(''authorPHID'', JStr u), (''ownerPHID'', JStr u)])]"

definition envelope :: "json \<Rightarrow> json" where
  "envelope res = JObj [(''result'', res), (''error_code'', JNull)]"

definition listing :: "json list \<Rightarrow> json \<Rightarrow> json" where
  "listing ts after =
     envelope (JObj [(''data'', JArr ts), (''cursor'', JObj [(''after'', after)])])"

definition sample_loads :: "string \<Rightarrow> json option" where
  "sample_loads = map_of
     [(page1, listing [sample_task 1 ''U1'', sample_task 2 ''U2''] (JStr ''2'')),
      (page2, listing [sample_task 3 ''U1''] (JStr ''3'')),
      (page3, listing [] JNull),
      (page_last, listing [sample_task 3 ''U1''] JNull),
      (page_null, listing [sample_task 3 ''U0''] JNull),
      (trans12, envelope (JObj [(''1'', JArr [JObj [(''authorPHID'', JStr ''U1'')]]),
                                (''2'', JArr [])])),
      (trans3, envelope (JObj [(''3'', JArr [])])),
      (trans_error, JObj [(''error_code'', JStr ''ERR-CONDUIT-CORE''),
                          (''error_info'', JStr ''Task does not exist''),
                          (''result'', JNull)]),
      (user1, envelope (JArr [JObj [(''phid'', JStr ''U1'')]])),
      (user2, envelope (JArr [JObj [(''phid'', JStr ''U2'')]])),
      (user_null, envelope (JArr [JNull])),
      (user_none, envelope (JArr [])),
      (no_code, JObj [(''result'', JArr [])])]"

definition sample_str :: "json \<Rightarrow> string" where
  "sample_str j = (case map_of [(JNum 1, ''1''), (JNum 2, ''2''), (JNum 3, ''3''), (JNum 7, ''7'')] j of
                     Some s \<Rightarrow> s | None \<Rightarrow> [])"

definition sample_net :: "nat \<Rightarrow> request \<Rightarrow> reply" where
  "sample_net n req =
     (if method_name req = MANIPHEST_TASKS then
        (case getitem (params req) PAFTER of
           Inl e \<Rightarrow>
             if getitem (params req) PCONSTRAINTS = Inr (JObj [(PMODIFIED_START, JNum 5)])
             then Reply 200 page_null
             else Reply 200 page1
         | Inr a \<Rightarrow>
             if a = JStr ''2'' then Reply 200 page2
             else if a = JStr ''8'' then Reply 200 page_last
             else Reply 200 page3)
      else if method_name req = MANIPHEST_TRANSACTIONS then
        (case getitem (params req) PIDS of
           Inl e \<Rightarrow> NoReply
         | Inr ids \<Rightarrow>
             if ids = JArr [JNum 1, JNum 2] then Reply 200 trans12
             else if ids = JArr [JNum 3] then Reply 200 trans3
             else Reply 200 trans_error)
      else
        (case getitem (params req) PHIDS of
           Inl e \<Rightarrow> NoReply
         | Inr ids \<Rightarrow>
             if ids = JArr [JStr ''U1''] then Reply 200 user1
             else if ids = JArr [JStr ''U2''] then Reply 200 user2
             else if ids = JArr [JStr ''U0''] then Reply 200 user_null
             else if ids = JArr [JStr ''U9''] then Reply 503 not_json
             else if ids = JArr [JStr ''U8''] then Reply 200 not_json
             else if ids = JArr [JStr ''U6''] then Reply 200 no_code
             else Reply 200 user_none))"

definition sample :: env where
  "sample = \<lparr>net = sample_net, loads = sample_loads, py_str = sample_str, api_token = ''secret''\<rparr>"

text \<open>The state a first run against the sample server leaves the instance in, and its log.\<close>

definition first_run :: state where
  "first_run = snd (fetch sample 3 0 init)"

definition first_trace :: "event list" where
  "first_trace = trace first_run"

section \<open>Composition lemmas\<close>

lemma stable_refl: "stable R \<Longrightarrow> R s b s"
  by (simp add: stable_def)

lemma stable_trans: "stable R \<Longrightarrow> R s True s1 \<Longrightarrow> R s1 b s2 \<Longrightarrow> R s b s2"
  unfolding stable_def by blast

lemma preservesD: "preserves R f \<Longrightarrow> f s = (r, s') \<Longrightarrow> R s (\<not> isl r) s'"
  unfolding preserves_def by (metis fst_conv snd_conv)

lemma preserves_return: "stable R \<Longrightarrow> preserves R (return x)"
  by (simp add: preserves_def return_def stable_refl)

lemma preserves_lift: "stable R \<Longrightarrow> preserves R (lift r)"
  by (simp add: preserves_def lift_def stable_refl)

lemma preserves_bind:
  assumes R: "stable R" and f: "preserves R f" and g: "\<And>x. preserves R (g x)"
  shows "preserves R (bind f g)"
  unfolding preserves_def
proof
  fix s
  obtain r s1 where fs: "f s = (r, s1)" by (cases "f s")
  have R1: "R s (\<not> isl r) s1" using preservesD [OF f fs] .
  show "R s (\<not> isl (fst (bind f g s))) (snd (bind f g s))"
  proof (cases r)
    case (Inl e)
    with fs R1 show ?thesis by (simp add: bind_def)
  next
    case (Inr x)
    obtain r2 s2 where gs: "g x s1 = (r2, s2)" by (cases "g x s1")
    have "R s1 (\<not> isl r2) s2" using preservesD [OF g gs] .
    moreover from Inr R1 have "R s True s1" by simp
    ultimately have "R s (\<not> isl r2) s2" using stable_trans [OF R] by blast
    with Inr fs gs show ?thesis by (simp add: bind_def)
  qed
qed

lemma preserves_mapM:
  assumes R: "stable R" and f: "\<And>x. preserves R (f x)"
  shows "preserves R (mapM f xs)"
proof (induction xs)
  case Nil
  show ?case by (simp add: preserves_return [OF R])
next
  case (Cons x xs)
  show ?case
    by (simp add: preserves_bind [OF R] preserves_return [OF R] f Cons.IH)
qed

lemma upholds_stable: "upholds env R \<Longrightarrow> stable R"
  by (simp add: upholds_def)

lemma bind_pushing:
  "bind (pushing c) g = bind c (\<lambda>raw. bind (push_cache_queue raw) (\<lambda>_. g raw))"
  by (rule ext) (simp add: pushing_def bind_def return_def split: prod.splits sum.splits)

lemma preserves_pushing:
  assumes "stable R" and "preserves R c" and "\<And>raw. preserves R (push_cache_queue raw)"
  shows "preserves R (pushing c)"
  unfolding pushing_def
  by (intro preserves_bind preserves_return assms)

lemma transactions_phase_pushing:
  "fetch_and_parse_tasks_transactions env tasks_ids =
     bind (pushing (transactions env tasks_ids)) (\<lambda>raw_json.
     bind (lift (parse_tasks_transactions env raw_json)) (\<lambda>tasks_trans.
     bind (lift (dict_items tasks_trans)) (\<lambda>kvs.
     bind (mapM (resolve_transactions env) (map snd kvs)) (\<lambda>vs.
     return (JObj (zip (map fst kvs) vs))))))"
  by (simp add: fetch_and_parse_tasks_transactions_def bind_pushing)

lemma page_round_pushing:
  "page_round env ps =
     bind (pushing (conduit_call env MANIPHEST_TASKS ps)) (\<lambda>raw_tasks.
     bind (lift (parse_tasks env raw_tasks)) (\<lambda>tasks.
     if tasks = [] then return Break
     else
       bind (process_page env tasks) (\<lambda>_.
       bind flush_cache_queue (\<lambda>_.
       bind (lift (cursor_after env raw_tasks)) (\<lambda>after.
       if \<not> truthy after then return Exhausted
       else return (Next (AList.update PAFTER after (conduit_params env ps))))))))"
  by (simp add: page_round_def bind_pushing)

lemma preserves_resolve_transaction:
  assumes "upholds env R"
  shows "preserves R (resolve_transaction env tt)"
  using assms unfolding resolve_transaction_def upholds_def
  by (intro preserves_bind preserves_lift) auto

lemma preserves_resolve_transactions:
  assumes "upholds env R"
  shows "preserves R (resolve_transactions env trs)"
  unfolding resolve_transactions_def
  by (intro preserves_bind preserves_lift preserves_return preserves_mapM
        preserves_resolve_transaction assms upholds_stable [OF assms])

lemma preserves_transactions_phase:
  assumes "upholds env R"
  shows "preserves R (fetch_and_parse_tasks_transactions env ids)"
  unfolding transactions_phase_pushing
  using assms
  by (intro preserves_bind preserves_lift preserves_return preserves_mapM
        preserves_resolve_transactions) (auto simp: upholds_def)

lemma preserves_enrich_task:
  assumes "upholds env R" and "\<And>t. preserves R (emit (Yield t))"
  shows "preserves R (enrich_task env tts task)"
  unfolding enrich_task_def
  using assms
  by (intro preserves_bind preserves_lift) (auto simp: upholds_def)

lemma preserves_process_page:
  assumes "upholds env R" and "\<And>t. preserves R (emit (Yield t))"
  shows "preserves R (process_page env tasks)"
  unfolding process_page_def
  by (intro preserves_bind preserves_lift preserves_return preserves_mapM
        preserves_enrich_task preserves_transactions_phase assms upholds_stable [OF assms(1)])

lemma preserves_page_round:
  assumes st: "stable R"
    and call: "\<And>ps. preserves R (pushing (conduit_call env MANIPHEST_TASKS ps))"
    and page: "\<And>tasks. preserves R (process_page env tasks)"
    and flush: "preserves R flush_cache_queue"
  shows "preserves R (page_round env ps)"
proof -
  have ret: "\<And>x::step. preserves R (return x)" by (rule preserves_return [OF st])
  have tail: "\<And>raw. preserves R
      (bind (process_page env tasks) (\<lambda>_.
       bind flush_cache_queue (\<lambda>_.
       bind (lift (cursor_after env raw)) (\<lambda>after.
       if \<not> truthy after then return Exhausted
       else return (Next (AList.update PAFTER after (conduit_params env ps)))))))" for tasks
    by (intro preserves_bind preserves_lift page flush st) (simp add: ret)
  show ?thesis
    unfolding page_round_pushing
    by (intro preserves_bind preserves_lift st call) (simp add: ret tail)
qed

lemma fetch_tasks_preserves:
  assumes st: "stable R"
    and call: "\<And>ps. preserves R (pushing (conduit_call env MANIPHEST_TASKS ps))"
    and page: "\<And>tasks. preserves R (process_page env tasks)"
    and flush: "preserves R flush_cache_queue"
  shows "R s (fst (fetch_tasks env n ps s) = Some (Inr ())) (snd (fetch_tasks env n ps s))"
proof (induction n arbitrary: ps s)
  case 0
  show ?case using st by (simp add: stable_refl)
next
  case (Suc n)
  obtain r s1 where pr: "page_round env ps s = (r, s1)" by (cases "page_round env ps s")
  have R1: "R s (\<not> isl r) s1"
    using preservesD [OF preserves_page_round [OF st call page flush] pr] .
  show ?case
  proof (cases r)
    case (Inl e)
    with pr R1 show ?thesis by simp
  next
    case (Inr st')
    show ?thesis
    proof (cases st')
      case Break
      with Inr pr R1 show ?thesis by simp
    next
      case Exhausted
      with Inr pr R1 show ?thesis by simp
    next
      case (Next ps')
      from Inr R1 have "R s True s1" by simp
      with Suc.IH [where s = s1 and ps = ps'] Next Inr pr show ?thesis
        using stable_trans [OF st] by simp
    qed
  qed
qed

lemma fetch_preserves:
  assumes up: "upholds env R"
    and emit: "\<And>t. preserves R (emit (Yield t))"
    and flush: "preserves R flush_cache_queue"
    and purge: "preserves R purge_cache_queue"
  shows "R s (fst (fetch env n ts s) = Some (Inr ())) (snd (fetch env n ts s))"
proof -
  have st: "stable R" using up by (rule upholds_stable)
  have "R s True (snd (purge_cache_queue s))"
    using purge by (simp add: preserves_def purge_cache_queue_def)
  moreover have "R (snd (purge_cache_queue s)) (fst (fetch env n ts s) = Some (Inr ()))
      (snd (fetch env n ts s))"
  proof -
    have call: "\<And>ps. preserves R (pushing (conduit_call env MANIPHEST_TASKS ps))"
      using up by (simp add: upholds_def)
    have page: "\<And>tasks. preserves R (process_page env tasks)"
      by (rule preserves_process_page [OF up emit])
    show ?thesis
      unfolding fetch_def by (rule fetch_tasks_preserves [OF st call page flush])
  qed
  ultimately show ?thesis using stable_trans [OF st] by blast
qed

subsection \<open>Log readers\<close>
lemma called_append: "called (xs @ ys) = called xs @ called ys"
  by (induction xs rule: called.induct) auto
lemma yielded_append: "yielded (xs @ ys) = yielded xs @ yielded ys"
  by (induction xs rule: yielded.induct) auto
lemma lookups_append: "lookups (xs @ ys) = lookups xs @ lookups ys"
  by (simp add: lookups_def called_append)


lemma new_events_eq: "trace s' = trace s @ es \<Longrightarrow> new_events s s' = es"
  by (simp add: new_events_def)



subsection \<open>The user lookup, case by case\<close>
lemma check_reply_Inr: "check_reply env r = Inr raw \<Longrightarrow> \<exists>status. r = Reply status raw"
  by (auto simp: check_reply_def split: reply.splits if_splits option.splits sum.splits)

lemma conduit_call_eq:
  "conduit_call env meth ps s =
     (check_reply env (net env (ncalls s) \<lparr>method_name = meth, params = JObj (conduit_params env ps)\<rparr>),
      s\<lparr>ncalls := Suc (ncalls s),
        trace := trace s @ [Call \<lparr>method_name = meth, params = JObj (conduit_params env ps)\<rparr>]\<rparr>)"
  by (simp add: conduit_call_def Let_def)

lemma get_or_fetch_user_cases:
  assumes "get_or_fetch_user env uid s = (r, s')"
  shows "(\<not> hashable uid \<and> r = Inl TypeError \<and> s' = s)
       \<or> (\<exists>u. hashable uid \<and> map_of (users s) (dict_key uid) = Some u \<and> r = Inr u \<and> s' = s)
       \<or> (\<exists>e. hashable uid \<and> map_of (users s) (dict_key uid) = None \<and> r = Inl e \<and>
               s' = s\<lparr>ncalls := Suc (ncalls s), trace := trace s @ [Call (user_request env uid)]\<rparr>)
       \<or> (\<exists>e raw status. hashable uid \<and> map_of (users s) (dict_key uid) = None \<and> r = Inl e \<and>
               net env (ncalls s) (user_request env uid) = Reply status raw \<and>
               s' = s\<lparr>ncalls := Suc (ncalls s), cache_queue := cache_queue s @ [raw],
                      trace := trace s @ [Call (user_request env uid), Push raw]\<rparr>)
       \<or> (\<exists>u raw status. hashable uid \<and> map_of (users s) (dict_key uid) = None \<and> r = Inr u \<and>
               net env (ncalls s) (user_request env uid) = Reply status raw \<and>
               s' = s\<lparr>ncalls := Suc (ncalls s), cache_queue := cache_queue s @ [raw],
                      trace := trace s @ [Call (user_request env uid), Push raw],
                      users := AList.update (dict_key uid) u (users s)\<rparr>)"
proof (cases "hashable uid")
  case False
  with assms show ?thesis by (auto simp: get_or_fetch_user_def)
next
  case True
  show ?thesis
  proof (cases "map_of (users s) (dict_key uid)")
    case (Some u)
    with True assms show ?thesis by (auto simp: get_or_fetch_user_def)
  next
    case None
    let ?req = "user_request env uid"
    show ?thesis
    proof (cases "check_reply env (net env (ncalls s) ?req)")
      case (Inl e)
      with True None assms show ?thesis
        by (auto simp: get_or_fetch_user_def fetch_and_parse_users_def client_users_def
            conduit_call_eq bind_def user_request_def)
    next
      case (Inr raw)
      then obtain status where net: "net env (ncalls s) ?req = Reply status raw"
        using check_reply_Inr by blast
      let ?s2 = "s\<lparr>ncalls := Suc (ncalls s), cache_queue := cache_queue s @ [raw],
                    trace := trace s @ [Call ?req, Push raw]\<rparr>"
      have eq: "get_or_fetch_user env uid s =
          (case parse_users env raw of
             Inl e \<Rightarrow> (Inl e, ?s2)
           | Inr us \<Rightarrow>
               (case first us of
                  Inl e \<Rightarrow> (Inl e, ?s2)
                | Inr u \<Rightarrow> (Inr u, ?s2\<lparr>users := AList.update (dict_key uid) u (users s)\<rparr>)))"
        using Inr True None
        by (simp add: get_or_fetch_user_def fetch_and_parse_users_def client_users_def
            conduit_call_eq bind_def user_request_def push_cache_queue_def lift_def
            split: sum.splits)
      show ?thesis
      proof (cases "parse_users env raw")
        case (Inl e)
        with eq assms net True None show ?thesis by auto
      next
        case us: (Inr us)
        show ?thesis
        proof (cases "first us")
          case (Inl e)
          with us eq assms net True None show ?thesis by auto
        next
          case (Inr u)
          with us eq assms net True None show ?thesis by auto
        qed
      qed
    qed
  qed
qed

lemma lookup_of_user_request: "lookup_of (user_request env uid) = [uid]"
  by (simp add: lookup_of_def user_request_def conduit_params_def PHIDS_def)

lemma lookup_of_other: "meth \<noteq> PHAB_USERS \<Longrightarrow> lookup_of \<lparr>method_name = meth, params = p\<rparr> = []"
  by (simp add: lookup_of_def)

lemma preservesI:
  assumes "\<And>s r s'. f s = (r, s') \<Longrightarrow> R s (\<not> isl r) s'"
  shows "preserves R f"
  unfolding preserves_def by (simp add: assms)

subsection \<open>Advances\<close>

lemma advances_iff: "advances P s b s' \<longleftrightarrow> (\<exists>es. trace s' = trace s @ es \<and> list_all P es)"
  by (auto simp: advances_def new_events_def)

lemma stable_advances: "stable (advances P)"
  unfolding stable_def advances_iff by (auto simp: list_all_append) 

lemma advances_call: "(\<And>r. P (Call r)) \<Longrightarrow> preserves (advances P) (conduit_call env meth ps)"
  by (simp add: preserves_def advances_iff conduit_call_eq)

lemma advances_push: "(\<And>r. P (Push r)) \<Longrightarrow> preserves (advances P) (push_cache_queue raw)"
  by (simp add: preserves_def advances_iff push_cache_queue_def)

lemma advances_emit: "P e \<Longrightarrow> preserves (advances P) (emit e)"
  by (simp add: preserves_def advances_iff emit_def)

lemma advances_flush: "P Flush \<Longrightarrow> preserves (advances P) flush_cache_queue"
  by (simp add: preserves_def advances_iff flush_cache_queue_def)

lemma advances_user:
  assumes "\<And>r. P (Call r)" and "\<And>r. P (Push r)"
  shows "preserves (advances P) (get_or_fetch_user env uid)"
proof (rule preservesI)
  fix s r s'
  assume "get_or_fetch_user env uid s = (r, s')"
  from get_or_fetch_user_cases [OF this] show "advances P s (\<not> isl r) s'"
    unfolding advances_iff using assms by (elim disjE exE conjE) simp_all
qed

lemma upholds_advances:
  assumes "\<And>r. P (Call r)" and "\<And>r. P (Push r)"
  shows "upholds env (advances P)"
  unfolding upholds_def transactions_def
  by (simp add: stable_advances preserves_pushing advances_call advances_push advances_user assms)

subsection \<open>Queues\<close>








subsection \<open>Keeps\<close>

lemma stable_keeps: "stable keeps"
  unfolding stable_def keeps_def by auto

lemma keeps_same_users: "users (snd (f s)) = users s \<Longrightarrow> keeps s b (snd (f s))"
  by (simp add: keeps_def)

lemma keeps_call: "preserves keeps (conduit_call env meth ps)"
  by (simp add: preserves_def keeps_def conduit_call_eq)

lemma keeps_push: "preserves keeps (push_cache_queue raw)"
  by (simp add: preserves_def keeps_def push_cache_queue_def)

lemma keeps_emit: "preserves keeps (emit e)"
  by (simp add: preserves_def keeps_def emit_def)

lemma keeps_flush: "preserves keeps flush_cache_queue"
  by (simp add: preserves_def keeps_def flush_cache_queue_def)

lemma keeps_user: "preserves keeps (get_or_fetch_user env uid)"
proof (rule preservesI)
  fix s r s'
  assume "get_or_fetch_user env uid s = (r, s')"
  from get_or_fetch_user_cases [OF this] show "keeps s (\<not> isl r) s'"
    unfolding keeps_def by (elim disjE exE conjE) (auto simp: update_conv')
qed

lemma upholds_keeps: "upholds env keeps"
  unfolding upholds_def transactions_def
  by (simp add: stable_keeps preserves_pushing keeps_call keeps_push keeps_user)

subsection \<open>Memo\<close>

lemma memo_iff:
  "memo s b s' \<longleftrightarrow>
     (\<exists>es. trace s' = trace s @ es \<and>
       distinct (lookup_keys es) \<and>
       set (lookup_keys es) \<inter> cached s = {} \<and>
       cached s \<subseteq> cached s' \<and>
       (b \<longrightarrow> set (lookup_keys es) \<subseteq> cached s'))"
  unfolding memo_def by (metis new_events_eq)

lemma lookup_keys_append: "lookup_keys (xs @ ys) = lookup_keys xs @ lookup_keys ys"
  by (simp add: lookup_keys_def lookups_append)

lemma stable_memo: "stable memo"
  unfolding stable_def
proof (intro conjI allI impI)
  fix s b show "memo s b s" by (simp add: memo_iff lookups_def lookup_keys_def)
next
  fix s s1 s2 b
  assume "memo s True s1" and "memo s1 b s2"
  then obtain es1 es2 where
    1: "trace s1 = trace s @ es1" "distinct (lookup_keys es1)"
       "set (lookup_keys es1) \<inter> cached s = {}"
       "cached s \<subseteq> cached s1"
       "set (lookup_keys es1) \<subseteq> cached s1" and
    2: "trace s2 = trace s1 @ es2" "distinct (lookup_keys es2)"
       "set (lookup_keys es2) \<inter> cached s1 = {}"
       "cached s1 \<subseteq> cached s2"
       "b \<longrightarrow> set (lookup_keys es2) \<subseteq> cached s2"
    unfolding memo_iff by auto
  have "trace s2 = trace s @ (es1 @ es2)" using 1(1) 2(1) by simp
  moreover have "distinct (lookup_keys (es1 @ es2))"
    using 1(2,5) 2(2,3) by (auto simp: lookup_keys_append)
  moreover have "set (lookup_keys (es1 @ es2)) \<inter> cached s = {}"
    using 1(3,4) 2(3) by (auto simp: lookup_keys_append)
  moreover have "cached s \<subseteq> cached s2" using 1(4) 2(4) by blast
  moreover have "b \<longrightarrow> set (lookup_keys (es1 @ es2)) \<subseteq> cached s2"
    using 1(5) 2(4,5) by (auto simp: lookup_keys_append)
  ultimately show "memo s b s2" unfolding memo_iff by blast
qed

lemma lookups_Call: "lookup_keys [Call r] = map dict_key (lookup_of r)"
  by (simp add: lookups_def lookup_keys_def)

lemma lookups_Call_Push: "lookup_keys [Call r, Push raw] = map dict_key (lookup_of r)"
  by (simp add: lookups_def lookup_keys_def)

lemma methods_differ: "MANIPHEST_TASKS \<noteq> PHAB_USERS" "MANIPHEST_TRANSACTIONS \<noteq> PHAB_USERS"
  by (simp_all add: MANIPHEST_TASKS_def MANIPHEST_TRANSACTIONS_def PHAB_USERS_def)

lemma memo_call: "meth \<noteq> PHAB_USERS \<Longrightarrow> preserves memo (conduit_call env meth ps)"
  by (simp add: preserves_def memo_iff conduit_call_eq lookups_Call lookup_of_other cached_def)

lemma memo_push: "preserves memo (push_cache_queue raw)"
  by (simp add: preserves_def memo_iff push_cache_queue_def lookups_def lookup_keys_def cached_def)

lemma memo_emit: "preserves memo (emit (Yield t))"
  by (simp add: preserves_def memo_iff emit_def lookups_def lookup_keys_def cached_def)

lemma memo_flush: "preserves memo flush_cache_queue"
  by (simp add: preserves_def memo_iff flush_cache_queue_def lookups_def lookup_keys_def cached_def)

lemma map_of_None_cached: "map_of (users s) k = None \<Longrightarrow> k \<notin> cached s"
  by (simp add: map_of_eq_None_iff cached_def)

lemma cached_same: "users s' = users s \<Longrightarrow> cached s' = cached s"
  by (simp add: cached_def)

lemma cached_update:
  "users s' = AList.update k v (users s) \<Longrightarrow> cached s' = insert k (cached s)"
  by (simp add: cached_def dom_update)

lemma memo_user: "preserves memo (get_or_fetch_user env uid)"
proof (rule preservesI)
  fix s r s'
  assume "get_or_fetch_user env uid s = (r, s')"
  from get_or_fetch_user_cases [OF this]
  consider (same) "s' = s"
    | (failed) es where "trace s' = trace s @ es" "lookup_keys es = [dict_key uid]"
        "dict_key uid \<notin> cached s" "users s' = users s" "isl r"
    | (miss) es u where "trace s' = trace s @ es" "lookup_keys es = [dict_key uid]"
        "dict_key uid \<notin> cached s" "users s' = AList.update (dict_key uid) u (users s)"
    by (elim disjE exE conjE)
      (simp_all add: lookups_Call lookups_Call_Push lookup_of_user_request map_of_None_cached)
  then show "memo s (\<not> isl r) s'"
  proof cases
    case same
    then show ?thesis using stable_refl [OF stable_memo] by simp
  next
    case failed
    then show ?thesis unfolding memo_iff using cached_same [of s' s] by auto
  next
    case miss
    then show ?thesis unfolding memo_iff
      using cached_update [of s' "dict_key uid" u s] by auto
  qed
qed

lemma upholds_memo: "upholds env memo"
  unfolding upholds_def transactions_def
  by (simp add: stable_memo preserves_pushing memo_call methods_differ memo_push memo_user)

lemma memo_purge: "preserves memo purge_cache_queue"
  by (simp add: preserves_def memo_iff purge_cache_queue_def lookups_def lookup_keys_def cached_def)

lemma keeps_purge: "preserves keeps purge_cache_queue"
  by (simp add: preserves_def keeps_def purge_cache_queue_def)

lemma distinct_map_filter_le1: "distinct (map f xs) \<Longrightarrow> length (filter (\<lambda>x. f x = k) xs) \<le> 1"
proof (induction xs)
  case Nil
  show ?case by simp
next
  case (Cons a xs)
  show ?case
  proof (cases "f a = k")
    case True
    from Cons.prems have "f a \<notin> f ` set xs" by simp
    with True have "\<forall>x \<in> set xs. f x \<noteq> k" by blast
    then have "filter (\<lambda>x. f x = k) xs = []" by (simp add: filter_empty_conv)
    with True show ?thesis by simp
  next
    case False
    with Cons show ?thesis by simp
  qed
qed

lemma fetch_memo: "memo s (fst (fetch env n ts s) = Some (Inr ())) (snd (fetch env n ts s))"
  by (rule fetch_preserves [OF upholds_memo memo_emit memo_flush memo_purge])

lemma cache_hit:
  "hashable user_id \<Longrightarrow> map_of (users s) (dict_key user_id) = Some user \<Longrightarrow>
   get_or_fetch_user env user_id s = (Inr user, s)"
  by (simp add: get_or_fetch_user_def)

lemma fetch_keeps: "keeps s (fst (fetch env n ts s) = Some (Inr ())) (snd (fetch env n ts s))"
  by (rule fetch_preserves [OF upholds_keeps keeps_emit keeps_flush keeps_purge])

lemma advances_purge: "P Purge \<Longrightarrow> preserves (advances P) purge_cache_queue"
  by (simp add: preserves_def advances_iff purge_cache_queue_def)

lemma fetch_tasks_advances:
  "advances (\<lambda>e. True) s b (snd (fetch_tasks env n ps s))"
proof -
  have "advances (\<lambda>e. True) s (fst (fetch_tasks env n ps s) = Some (Inr ()))
      (snd (fetch_tasks env n ps s))"
    by (rule fetch_tasks_preserves [OF stable_advances
          preserves_pushing [OF stable_advances advances_call advances_push]
          preserves_process_page [OF upholds_advances advances_emit] advances_flush]) simp_all
  then show ?thesis by (simp add: advances_def)
qed

lemma fetch_starts_with_purge:
  "new_events s (snd (fetch env n ts s)) =
     Purge # new_events (snd (purge_cache_queue s)) (snd (fetch env n ts s))"
proof -
  let ?s0 = "snd (purge_cache_queue s)" and ?s' = "snd (fetch env n ts s)"
  have "trace ?s' = trace ?s0 @ new_events ?s0 ?s'"
    using fetch_tasks_advances [of ?s0 True env n] by (simp add: advances_def fetch_def)
  moreover have "trace ?s0 = trace s @ [Purge]"
    by (simp add: purge_cache_queue_def)
  ultimately have "trace ?s' = trace s @ (Purge # new_events ?s0 ?s')" by simp
  then show ?thesis by (rule new_events_eq)
qed

subsection \<open>Evaluating the sample server\<close>

lemmas sample_texts = page1_def page2_def page3_def page_last_def page_null_def trans12_def trans3_def trans_error_def
  user1_def user2_def user_null_def user_none_def no_code_def not_json_def

lemma sample_loads_simps:
  "sample_loads page1 = Some (listing [sample_task 1 ''U1'', sample_task 2 ''U2''] (JStr ''2''))"
  "sample_loads page2 = Some (listing [sample_task 3 ''U1''] (JStr ''3''))"
  "sample_loads page3 = Some (listing [] JNull)"
  "sample_loads page_last = Some (listing [sample_task 3 ''U1''] JNull)"
  "sample_loads page_null = Some (listing [sample_task 3 ''U0''] JNull)"
  "sample_loads trans12 = Some (envelope (JObj [(''1'', JArr [JObj [(''authorPHID'', JStr ''U1'')]]),
                                (''2'', JArr [])]))"
  "sample_loads trans3 = Some (envelope (JObj [(''3'', JArr [])]))"
  "sample_loads trans_error = Some (JObj [(''error_code'', JStr ''ERR-CONDUIT-CORE''),
                          (''error_info'', JStr ''Task does not exist''),
                          (''result'', JNull)])"
  "sample_loads user1 = Some (envelope (JArr [JObj [(''phid'', JStr ''U1'')]]))"
  "sample_loads user2 = Some (envelope (JArr [JObj [(''phid'', JStr ''U2'')]]))"
  "sample_loads user_null = Some (envelope (JArr [JNull]))"
  "sample_loads user_none = Some (envelope (JArr []))"
  "sample_loads no_code = Some (JObj [(''result'', JArr [])])"
  "sample_loads not_json = None"
  by (simp_all add: sample_loads_def sample_texts)

lemmas names = MANIPHEST_TASKS_def MANIPHEST_TRANSACTIONS_def PHAB_USERS_def PAFTER_def
  PCONSTRAINTS_def PHIDS_def PIDS_def PORDER_def PMODIFIED_START_def VOUTDATED_def
lemmas monad = return_def throw_def lift_def bind_def emit_def push_cache_queue_def
  flush_cache_queue_def purge_cache_queue_def
lemmas program = conduit_call_def check_reply_def conduit_params_def http_error_def
  transactions_def client_users_def cursor_after_def parse_tasks_def
  parse_tasks_transactions_def parse_users_def fetch_and_parse_users_def
  get_or_fetch_user_def resolve_transaction_def resolve_transactions_def
  fetch_and_parse_tasks_transactions_def set_field_def get_field_def enrich_task_def
  process_page_def page_round_def fetch_def tasks_params_def
lemmas sample_simps = sample_def sample_net_def sample_str_def sample_task_def envelope_def
  listing_def sample_loads_simps


lemma getitem_error: "getitem j k = Inl e \<Longrightarrow> e = KeyError \<or> e = TypeError"
  by (cases j) (auto split: option.splits)

subsection \<open>One round, one page\<close>

lemma page_round_eq:
  "page_round env ps s =
     (case conduit_call env MANIPHEST_TASKS ps s of
        (Inl e, s1) \<Rightarrow> (Inl e, s1)
      | (Inr raw, s1) \<Rightarrow>
          (case parse_tasks env raw of
             Inl e \<Rightarrow> (Inl e, snd (push_cache_queue raw s1))
           | Inr tasks \<Rightarrow>
               if tasks = [] then (Inr Break, snd (push_cache_queue raw s1))
               else (case process_page env tasks (snd (push_cache_queue raw s1)) of
                       (Inl e, s3) \<Rightarrow> (Inl e, s3)
                     | (Inr u, s3) \<Rightarrow>
                         (case cursor_after env raw of
                            Inl e \<Rightarrow> (Inl e, snd (flush_cache_queue s3))
                          | Inr after \<Rightarrow>
                              (if \<not> truthy after then Inr Exhausted
                               else Inr (Next (AList.update PAFTER after (conduit_params env ps))),
                               snd (flush_cache_queue s3))))))"
  by (simp add: page_round_def bind_def lift_def return_def push_cache_queue_def
      flush_cache_queue_def split: prod.splits sum.splits)

lemma process_page_eq:
  "process_page env tasks s =
     (case map_raise (\<lambda>t. getitem t ''id'') tasks of
        Inl e \<Rightarrow> (Inl e, s)
      | Inr ids \<Rightarrow>
          (case fetch_and_parse_tasks_transactions env ids s of
             (Inl e, s1) \<Rightarrow> (Inl e, s1)
           | (Inr tts, s1) \<Rightarrow>
               (case mapM (enrich_task env tts) tasks s1 of
                  (Inl e, s2) \<Rightarrow> (Inl e, s2)
                | (Inr us, s2) \<Rightarrow> (Inr (), s2))))"
  by (simp add: process_page_def bind_def lift_def return_def split: prod.splits sum.splits)

lemma transactions_phase_error:
  "transactions env ids s = (Inl e, s1) \<Longrightarrow>
   fetch_and_parse_tasks_transactions env ids s = (Inl e, s1)"
  by (simp add: fetch_and_parse_tasks_transactions_def bind_def)

lemma no_Yield_yielded: "list_all (\<lambda>e. \<forall>t. e \<noteq> Yield t) es \<Longrightarrow> yielded es = []"
  by (induction es rule: yielded.induct) auto

lemma transactions_phase_no_yield:
  "yielded (new_events s (snd (fetch_and_parse_tasks_transactions env ids s))) = []"
proof -
  obtain r s' where eq: "fetch_and_parse_tasks_transactions env ids s = (r, s')"
    by (cases "fetch_and_parse_tasks_transactions env ids s")
  have "preserves (advances (\<lambda>e. \<forall>t. e \<noteq> Yield t))
      (fetch_and_parse_tasks_transactions env ids)"
    by (rule preserves_transactions_phase [OF upholds_advances]) simp_all
  from preservesD [OF this eq]
  have "list_all (\<lambda>e. \<forall>t. e \<noteq> Yield t) (new_events s s')"
    by (simp add: advances_def)
  then have "yielded (new_events s s') = []"
    by (rule no_Yield_yielded)
  with eq show ?thesis by simp
qed

lemma process_page_extends:
  assumes "process_page env tasks s = (r, s')"
  shows "trace s' = trace s @ new_events s s'"
proof -
  have "preserves (advances (\<lambda>e. True)) (process_page env tasks)"
    by (rule preserves_process_page [OF upholds_advances advances_emit]) simp_all
  from preservesD [OF this assms] show ?thesis by (simp add: advances_def)
qed

subsection \<open>Leaving the loop\<close>

lemma fetch_tasks_more_fuel:
  "fetch_tasks env n ps s = (Some r, s') \<Longrightarrow> fetch_tasks env (n + k) ps s = (Some r, s')"
proof (induction n arbitrary: ps s)
  case 0
  then show ?case by simp
next
  case (Suc n)
  then show ?case
    by (auto split: prod.splits sum.splits step.splits)
qed

lemma break_round:
  assumes "page_round env ps s = (Inr Break, s')"
  shows "\<exists>req raw. trace s' = trace s @ [Call req, Push raw] \<and>
           method_name req = MANIPHEST_TASKS \<and> parse_tasks env raw = Inr [] \<and>
           cache_queue s' = cache_queue s @ [raw] \<and> stored s' = stored s"
  using assms
  by (auto simp: page_round_eq conduit_call_eq push_cache_queue_def
      split: sum.splits prod.splits if_splits)

lemma next_round_queue:
  assumes "page_round env ps s = (Inr (Next ps'), s')"
  shows "cache_queue s' = []"
  using assms
  by (auto simp: page_round_eq flush_cache_queue_def split: sum.splits prod.splits if_splits)

lemma fetch_tasks_left_by_break:
  assumes "left_by_break env n ps s" and "cache_queue s = []"
  shows "fst (fetch_tasks env n ps s) = Some (Inr ()) \<and>
         (\<exists>es req raw. trace (snd (fetch_tasks env n ps s)) = es @ [Call req, Push raw] \<and>
            method_name req = MANIPHEST_TASKS \<and> parse_tasks env raw = Inr [] \<and>
            cache_queue (snd (fetch_tasks env n ps s)) = [raw])"
  using assms
proof (induction n arbitrary: ps s)
  case 0
  then show ?case by simp
next
  case (Suc n)
  obtain r s1 where pr: "page_round env ps s = (r, s1)" by (cases "page_round env ps s")
  show ?case
  proof (cases r)
    case (Inl e)
    with pr Suc.prems show ?thesis by simp
  next
    case (Inr st)
    show ?thesis
    proof (cases st)
      case Break
      from break_round [OF pr [unfolded Inr Break]] Suc.prems(2) pr Inr Break
      show ?thesis by auto
    next
      case Exhausted
      with pr Inr Suc.prems show ?thesis by simp
    next
      case (Next ps')
      have q: "cache_queue s1 = []" using next_round_queue pr Inr Next by blast
      have l: "left_by_break env n ps' s1" using Suc.prems(1) pr Inr Next by simp
      from Suc.IH [OF l q] pr Inr Next show ?thesis by simp
    qed
  qed
qed

lemma first_run_fields:
  "\<exists>t. first_run =
     \<lparr>users = [(JStr ''U1'', JObj [(''phid'', JStr ''U1'')]),
               (JStr ''U2'', JObj [(''phid'', JStr ''U2'')])],
      cache_queue = [page3],
      stored = [[page1, trans12, user1, user2], [page2, trans3]],
      ncalls = 7, trace = t\<rparr>"
  by (simp add: first_run_def names monad program sample_simps init_def Let_def numeral_3_eq_3)

lemma first_run_eq:
  "first_run =
     \<lparr>users = [(JStr ''U1'', JObj [(''phid'', JStr ''U1'')]),
               (JStr ''U2'', JObj [(''phid'', JStr ''U2'')])],
      cache_queue = [page3],
      stored = [[page1, trans12, user1, user2], [page2, trans3]],
      ncalls = 7, trace = first_trace\<rparr>"
proof -
  from first_run_fields obtain t where eq: "first_run =
     \<lparr>users = [(JStr ''U1'', JObj [(''phid'', JStr ''U1'')]),
               (JStr ''U2'', JObj [(''phid'', JStr ''U2'')])],
      cache_queue = [page3],
      stored = [[page1, trans12, user1, user2], [page2, trans3]],
      ncalls = 7, trace = t\<rparr>" ..
  from arg_cong [OF eq, of trace] have "first_trace = t" by (simp add: first_trace_def)
  with eq show ?thesis by simp
qed

subsection \<open>Enriching one task\<close>

lemma bind_lift_InrE:
  assumes "bind (lift r) g s = (Inr y, s')"
  obtains x where "r = Inr x" and "g x s = (Inr y, s')"
  using assms by (cases r) (simp_all add: bind_def lift_def)

lemma bind_InrE:
  assumes "bind f g s = (Inr y, s')"
  obtains x s1 where "f s = (Inr x, s1)" and "g x s1 = (Inr y, s')"
  using assms by (cases "f s") (auto simp: bind_def split: sum.splits)

lemma bind_lift_casesE:
  assumes "bind (lift r) g s = (res, s')"
  obtains (raised) e where "r = Inl e" and "res = Inl e" and "s' = s"
    | (went_on) x where "r = Inr x" and "g x s = (res, s')"
  using assms by (cases r) (auto simp: bind_def lift_def)

lemma bind_casesE:
  assumes "bind f g s = (res, s')"
  obtains (raised) e where "f s = (Inl e, s')" and "res = Inl e"
    | (went_on) x s1 where "f s = (Inr x, s1)" and "g x s1 = (res, s')"
  using assms by (cases "f s") (auto simp: bind_def split: sum.splits)

lemma getitem_Inr: "getitem j k = Inr v \<longleftrightarrow> (\<exists>kvs. j = JObj kvs \<and> map_of kvs k = Some v)"
  by (cases j) (auto split: option.splits)

lemma get_field_Inr:
  "get_field task k = Inr v \<longleftrightarrow>
     (\<exists>kvs fs. task = JObj kvs \<and> map_of kvs ''fields'' = Some (JObj fs) \<and> map_of fs k = Some v)"
  by (auto simp: get_field_def getitem_Inr split: sum.splits)

lemma set_field_obj:
  "map_of kvs ''fields'' = Some (JObj fs) \<Longrightarrow>
   set_field (JObj kvs) k v = Inr (JObj (AList.update ''fields'' (JObj (AList.update k v fs)) kvs))"
  by (simp add: set_field_def)

lemma enrich_task_steps:
  assumes "enrich_task env tts task s = (Inr u, s')"
  obtains task_id author_id owner_id author owner task1 task2 trs task3 s1 s2 where
    "getitem task ''id'' = Inr task_id"
    "get_field task ''authorPHID'' = Inr author_id"
    "get_field task ''ownerPHID'' = Inr owner_id"
    "get_or_fetch_user env author_id s = (Inr author, s1)"
    "set_field task ''authorData'' author = Inr task1"
    "get_or_fetch_user env owner_id s1 = (Inr owner, s2)"
    "set_field task1 ''ownerData'' owner = Inr task2"
    "getitem tts (py_str env task_id) = Inr trs"
    "setitem task2 ''transactions'' trs = Inr task3"
    "s' = s2\<lparr>trace := trace s2 @ [Yield task3]\<rparr>"
  using assms unfolding enrich_task_def
  by (elim bind_lift_InrE bind_InrE) (auto simp: emit_def)

lemma enrich_task_Inr:
  assumes "enrich_task env tts task s = (Inr u, s')"
  shows "\<exists>kvs fs task_id author_id owner_id author owner trs s1 s2.
           task = JObj kvs \<and> map_of kvs ''fields'' = Some (JObj fs) \<and>
           map_of kvs ''id'' = Some task_id \<and>
           map_of fs ''authorPHID'' = Some author_id \<and> map_of fs ''ownerPHID'' = Some owner_id \<and>
           get_or_fetch_user env author_id s = (Inr author, s1) \<and>
           get_or_fetch_user env owner_id s1 = (Inr owner, s2) \<and>
           getitem tts (py_str env task_id) = Inr trs \<and>
           s' = s2\<lparr>trace := trace s2 @ [Yield (enriched_task kvs fs author owner trs)]\<rparr>"
proof -
  from enrich_task_steps [OF assms]
  obtain task_id author_id owner_id author owner task1 task2 trs task3 s1 s2 where
    id: "getitem task ''id'' = Inr task_id" and
    a: "get_field task ''authorPHID'' = Inr author_id" and
    o: "get_field task ''ownerPHID'' = Inr owner_id" and
    ga: "get_or_fetch_user env author_id s = (Inr author, s1)" and
    t1: "set_field task ''authorData'' author = Inr task1" and
    go: "get_or_fetch_user env owner_id s1 = (Inr owner, s2)" and
    t2: "set_field task1 ''ownerData'' owner = Inr task2" and
    tr: "getitem tts (py_str env task_id) = Inr trs" and
    t3: "setitem task2 ''transactions'' trs = Inr task3" and
    s': "s' = s2\<lparr>trace := trace s2 @ [Yield task3]\<rparr>" .
  from a obtain kvs fs where task: "task = JObj kvs" and
    f: "map_of kvs ''fields'' = Some (JObj fs)" and am: "map_of fs ''authorPHID'' = Some author_id"
    by (auto simp: get_field_Inr)
  from o task f have om: "map_of fs ''ownerPHID'' = Some owner_id"
    by (auto simp: get_field_Inr)
  from id have im: "map_of kvs ''id'' = Some task_id"
    unfolding task by (simp split: option.splits)
  have task1: "task1 = JObj (AList.update ''fields'' (JObj (AList.update ''authorData'' author fs)) kvs)"
    using t1 task f by (simp add: set_field_obj)
  have task2: "task2 = JObj (AList.update ''fields''
        (JObj (AList.update ''ownerData'' owner (AList.update ''authorData'' author fs))) kvs)"
    using t2 unfolding task1 by (simp add: set_field_def update_conv')
  have "task3 = enriched_task kvs fs author owner trs"
    using t3 unfolding task2 by (simp add: enriched_task_def)
  with s' have "s' = s2\<lparr>trace := trace s2 @ [Yield (enriched_task kvs fs author owner trs)]\<rparr>"
    by simp
  with task f im am om ga go tr show ?thesis by blast
qed

lemma user_no_yield:
  assumes "get_or_fetch_user env uid s = (r, s')"
  shows "trace s' = trace s @ new_events s s' \<and> yielded (new_events s s') = []"
proof -
  have "preserves (advances (\<lambda>e. \<forall>t. e \<noteq> Yield t)) (get_or_fetch_user env uid)"
    by (rule advances_user) simp_all
  from preservesD [OF this assms] show ?thesis
    by (simp add: advances_def no_Yield_yielded)
qed



lemma enrich_task_yields_one:
  assumes "enrich_task env tts task s = (Inr u, s')"
  shows "\<exists>kvs fs author owner trs task_id.
           task = JObj kvs \<and> map_of kvs ''fields'' = Some (JObj fs) \<and>
           map_of kvs ''id'' = Some task_id \<and>
           getitem tts (py_str env task_id) = Inr trs \<and>
           trace s' = trace s @ new_events s s' \<and>
           yielded (new_events s s') = [enriched_task kvs fs author owner trs]"
proof -
  from enrich_task_Inr [OF assms] obtain kvs fs task_id author_id owner_id author owner trs s1 s2
    where task: "task = JObj kvs" "map_of kvs ''fields'' = Some (JObj fs)"
      "map_of kvs ''id'' = Some task_id" "getitem tts (py_str env task_id) = Inr trs"
      and ga: "get_or_fetch_user env author_id s = (Inr author, s1)"
      and go: "get_or_fetch_user env owner_id s1 = (Inr owner, s2)"
      and s': "s' = s2\<lparr>trace := trace s2 @ [Yield (enriched_task kvs fs author owner trs)]\<rparr>"
    by blast
  from user_no_yield [OF ga] user_no_yield [OF go]
  have t2: "trace s2 = trace s @ (new_events s s1 @ new_events s1 s2)"
    and y: "yielded (new_events s s1 @ new_events s1 s2) = []"
    by (simp_all add: yielded_append)
  from t2 s' have "trace s' = trace s @
      ((new_events s s1 @ new_events s1 s2) @ [Yield (enriched_task kvs fs author owner trs)])"
    by simp
  from new_events_eq [OF this] this y
  have "trace s' = trace s @ new_events s s' \<and>
      yielded (new_events s s') = [enriched_task kvs fs author owner trs]"
    by (simp add: yielded_append)
  with task show ?thesis by blast
qed

lemma enriched_task_keeps:
  "getitem (enriched_task kvs fs author owner trs) k =
     (if k = ''transactions'' then Inr trs
      else if k = ''fields''
        then Inr (JObj (AList.update ''ownerData'' owner (AList.update ''authorData'' author fs)))
      else getitem (JObj kvs) k)"
  by (simp add: enriched_task_def update_conv')

lemma enriched_task_fields:
  "get_field (enriched_task kvs fs author owner trs) k =
     (if k = ''ownerData'' then Inr owner
      else if k = ''authorData'' then Inr author
      else getitem (JObj fs) k)"
  by (simp add: get_field_def enriched_task_keeps update_conv')

subsection \<open>Answers\<close>








subsection \<open>What a page adds to the log\<close>



lemma page_round_went_on:
  assumes "page_round env ps s = (Inr st, s')" and "st \<noteq> Break"
  obtains raw s1 tasks s3 where
    "conduit_call env MANIPHEST_TASKS ps s = (Inr raw, s1)"
    "parse_tasks env raw = Inr tasks" "tasks \<noteq> []"
    "process_page env tasks (snd (push_cache_queue raw s1)) = (Inr (), s3)"
    "s' = snd (flush_cache_queue s3)"
proof -
  obtain r s1 where c: "conduit_call env MANIPHEST_TASKS ps s = (r, s1)"
    by (cases "conduit_call env MANIPHEST_TASKS ps s")
  obtain raw where r: "r = Inr raw"
    using assms c by (cases r) (simp_all add: page_round_eq)
  obtain tasks where pt: "parse_tasks env raw = Inr tasks"
    using assms c r by (cases "parse_tasks env raw") (simp_all add: page_round_eq)
  have ne: "tasks \<noteq> []"
    using assms c r pt by (auto simp: page_round_eq)
  obtain r3 s3 where pp: "process_page env tasks (snd (push_cache_queue raw s1)) = (r3, s3)"
    by (cases "process_page env tasks (snd (push_cache_queue raw s1))")
  obtain u where r3: "r3 = Inr u"
    using assms c r pt ne pp by (cases r3) (simp_all add: page_round_eq)
  have "s' = snd (flush_cache_queue s3)"
    using assms c r pt ne pp r3 by (auto simp: page_round_eq split: sum.splits if_splits)
  with c r pt ne pp r3 that show ?thesis by simp
qed

subsection \<open>Records\<close>








lemma update_absent: "map_of al k = None \<Longrightarrow> AList.update k v al = al @ [(k, v)]"
  by (induction al) (auto split: if_splits)

lemma user_grows:
  assumes "get_or_fetch_user env uid s = (r, s')"
  shows "set (users s) \<subseteq> set (users s')"
  using get_or_fetch_user_cases [OF assms]
  by (elim disjE exE conjE) (auto simp: update_absent)



subsection \<open>Resolving the authors of the transactions\<close>


lemma resolve_transaction_grows:
  assumes "resolve_transaction env tt s = (r, s')"
  shows "set (users s) \<subseteq> set (users s')"
  using assms unfolding resolve_transaction_def
  by (elim bind_lift_casesE bind_casesE) (auto simp: lift_def dest: user_grows)





subsection \<open>What the yielded tasks carry\<close>














section \<open>The claims\<close>

text \<open>
  C2. In one run of \<open>fetch\<close>, from whatever state and against whatever server, at most one
  \<^verbatim>\<open>user.query\<close> request is sent for a user identifier (identifiers compared as dictionary
  keys, the way \<^verbatim>\<open>self._users\<close> compares them), however many tasks and transactions refer
  to it; and when the identifier is in \<^verbatim>\<open>self._users\<close>, \<^verbatim>\<open>__get_or_fetch_user\<close> returns the
  stored record and leaves the state as it was: no request, no push.
\<close>

theorem one_lookup_per_user:
  "length (filter (\<lambda>u. dict_key u = dict_key user_id)
            (lookups (new_events s (snd (fetch env n ts s))))) \<le> 1
   \<and> (hashable user_id \<and> map_of (users s) (dict_key user_id) = Some user \<longrightarrow>
        get_or_fetch_user env user_id s = (Inr user, s))"
proof
  have "distinct (map dict_key (lookups (new_events s (snd (fetch env n ts s)))))"
    using fetch_memo [of s env n ts] by (simp add: memo_def lookup_keys_def)
  then show "length (filter (\<lambda>u. dict_key u = dict_key user_id)
            (lookups (new_events s (snd (fetch env n ts s))))) \<le> 1"
    by (rule distinct_map_filter_le1)
next
  show "hashable user_id \<and> map_of (users s) (dict_key user_id) = Some user \<longrightarrow>
        get_or_fetch_user env user_id s = (Inr user, s)"
    by (simp add: cache_hit)
qed


theorem one_lookup_per_user_witness:
  "hashable (JStr ''U1'') \<and>
   map_of (users (init\<lparr>users := [(JStr ''U1'', JNum 5)]\<rparr>)) (dict_key (JStr ''U1'')) = Some (JNum 5) \<and>
   get_or_fetch_user sample (JStr ''U1'') (init\<lparr>users := [(JStr ''U1'', JNum 5)]\<rparr>) =
     (Inr (JNum 5), init\<lparr>users := [(JStr ''U1'', JNum 5)]\<rparr>)"
  using one_lookup_per_user [of "JStr ''U1''" "init\<lparr>users := [(JStr ''U1'', JNum 5)]\<rparr>"
      sample 0 0 "JNum 5"]
  by (simp add: init_def)

text \<open>
  C6, as the code has it. \<^verbatim>\<open>_call\<close> raises \<open>ConduitError\<close> with the envelope's
  \<^verbatim>\<open>error_info\<close> and \<^verbatim>\<open>error_code\<close> exactly when a response arrived whose status is not a
  client or server error, whose body decodes, and whose \<^verbatim>\<open>error_code\<close> is true in Python's
  sense (and \<^verbatim>\<open>error_info\<close> is there). It raises a transport error when no response
  arrives or the status is 4xx or 5xx, whatever the body says. It returns a text exactly
  when the status is no error, the body decodes and its \<^verbatim>\<open>error_code\<close> is false in
  Python's sense, and the text is the body as received. In every other case it raises
  an error that is none of the typed ones: with a status that is no error, a body that
  does not decode raises \<open>ValueError\<close>, and a decoded body whose \<^verbatim>\<open>error_code\<close> cannot be
  read, or whose \<^verbatim>\<open>error_info\<close> cannot be read beside a true \<^verbatim>\<open>error_code\<close>, raises the
  error of that subscript, \<open>KeyError\<close> (the key is missing) or \<open>TypeError\<close> (the body is no
  dictionary).
\<close>

theorem conduit_call_outcome:
  assumes "net env (ncalls s) \<lparr>method_name = meth, params = JObj (conduit_params env ps)\<rparr> = rep"
  shows "(fst (conduit_call env meth ps s) = Inl (ConduitError info code) \<longleftrightarrow>
            (\<exists>status text result. rep = Reply status text \<and> \<not> http_error status \<and>
               loads env text = Some result \<and> getitem result ''error_code'' = Inr code \<and>
               truthy code \<and> getitem result ''error_info'' = Inr info))
       \<and> (rep = NoReply \<longrightarrow> fst (conduit_call env meth ps s) = Inl ConnectionError)
       \<and> (\<forall>status text. rep = Reply status text \<and> http_error status \<longrightarrow>
            fst (conduit_call env meth ps s) = Inl (HTTPError status))
       \<and> (fst (conduit_call env meth ps s) = Inr r \<longleftrightarrow>
            (\<exists>status result code. rep = Reply status r \<and> \<not> http_error status \<and>
               loads env r = Some result \<and> getitem result ''error_code'' = Inr code \<and>
               \<not> truthy code))
       \<and> (\<forall>status text. rep = Reply status text \<and> \<not> http_error status \<and>
            loads env text = None \<longrightarrow>
            fst (conduit_call env meth ps s) = Inl ValueError)
       \<and> (\<forall>status text result e. rep = Reply status text \<and> \<not> http_error status \<and>
            loads env text = Some result \<and> getitem result ''error_code'' = Inl e \<longrightarrow>
            fst (conduit_call env meth ps s) = Inl e \<and> (e = KeyError \<or> e = TypeError) \<and>
            (e = KeyError \<longleftrightarrow> (\<exists>kvs. result = JObj kvs)))
       \<and> (\<forall>status text result c e. rep = Reply status text \<and> \<not> http_error status \<and>
            loads env text = Some result \<and> getitem result ''error_code'' = Inr c \<and>
            truthy c \<and> getitem result ''error_info'' = Inl e \<longrightarrow>
            fst (conduit_call env meth ps s) = Inl e \<and> e = KeyError)"
proof -
  have typed: "(fst (conduit_call env meth ps s) = Inl (ConduitError info code) \<longleftrightarrow>
            (\<exists>status text result. rep = Reply status text \<and> \<not> http_error status \<and>
               loads env text = Some result \<and> getitem result ''error_code'' = Inr code \<and>
               truthy code \<and> getitem result ''error_info'' = Inr info))
       \<and> (rep = NoReply \<longrightarrow> fst (conduit_call env meth ps s) = Inl ConnectionError)
       \<and> (\<forall>status text. rep = Reply status text \<and> http_error status \<longrightarrow>
            fst (conduit_call env meth ps s) = Inl (HTTPError status))
       \<and> (fst (conduit_call env meth ps s) = Inr r \<longleftrightarrow>
            (\<exists>status result code. rep = Reply status r \<and> \<not> http_error status \<and>
               loads env r = Some result \<and> getitem result ''error_code'' = Inr code \<and>
               \<not> truthy code))"
    using assms
    by (cases rep)
      (auto simp: conduit_call_def check_reply_def Let_def split: option.splits sum.splits
        dest: getitem_error)
  have undecodable: "\<forall>status text. rep = Reply status text \<and> \<not> http_error status \<and>
            loads env text = None \<longrightarrow>
            fst (conduit_call env meth ps s) = Inl ValueError"
    using assms by (simp add: conduit_call_def check_reply_def Let_def)
  have no_code: "\<forall>status text result e. rep = Reply status text \<and> \<not> http_error status \<and>
            loads env text = Some result \<and> getitem result ''error_code'' = Inl e \<longrightarrow>
            fst (conduit_call env meth ps s) = Inl e \<and> (e = KeyError \<or> e = TypeError) \<and>
            (e = KeyError \<longleftrightarrow> (\<exists>kvs. result = JObj kvs))"
  proof (intro allI impI)
    fix status body result e
    assume a: "rep = Reply status body \<and> \<not> http_error status \<and>
            loads env body = Some result \<and> getitem result ''error_code'' = Inl e"
    then have "fst (conduit_call env meth ps s) = Inl e"
      using assms by (simp add: conduit_call_def check_reply_def Let_def)
    moreover from a have "(e = KeyError \<or> e = TypeError) \<and>
        (e = KeyError \<longleftrightarrow> (\<exists>kvs. result = JObj kvs))"
      by (cases result) (auto split: option.splits)
    ultimately show "fst (conduit_call env meth ps s) = Inl e \<and> (e = KeyError \<or> e = TypeError) \<and>
            (e = KeyError \<longleftrightarrow> (\<exists>kvs. result = JObj kvs))"
      by blast
  qed
  have no_info: "\<forall>status text result c e. rep = Reply status text \<and> \<not> http_error status \<and>
            loads env text = Some result \<and> getitem result ''error_code'' = Inr c \<and>
            truthy c \<and> getitem result ''error_info'' = Inl e \<longrightarrow>
            fst (conduit_call env meth ps s) = Inl e \<and> e = KeyError"
  proof (intro allI impI)
    fix status body result c e
    assume a: "rep = Reply status body \<and> \<not> http_error status \<and>
            loads env body = Some result \<and> getitem result ''error_code'' = Inr c \<and>
            truthy c \<and> getitem result ''error_info'' = Inl e"
    then have "fst (conduit_call env meth ps s) = Inl e"
      using assms by (simp add: conduit_call_def check_reply_def Let_def)
    moreover from a have "e = KeyError"
      by (cases result) (auto split: option.splits)
    ultimately show "fst (conduit_call env meth ps s) = Inl e \<and> e = KeyError" by blast
  qed
  from typed undecodable no_code no_info show ?thesis by blast
qed

theorem conduit_call_outcome_witness:
  "net sample (ncalls init)
     \<lparr>method_name = MANIPHEST_TRANSACTIONS,
        params = JObj (conduit_params sample [(PIDS, JArr [JNum 7])])\<rparr> = Reply 200 trans_error
   \<and> fst (conduit_call sample MANIPHEST_TRANSACTIONS [(PIDS, JArr [JNum 7])] init) =
       Inl (ConduitError (JStr ''Task does not exist'') (JStr ''ERR-CONDUIT-CORE''))
   \<and> net sample (ncalls init)
     \<lparr>method_name = PHAB_USERS,
        params = JObj (conduit_params sample [(PHIDS, JArr [JStr ''U9''])])\<rparr> = Reply 503 not_json
   \<and> http_error 503
   \<and> fst (conduit_call sample PHAB_USERS [(PHIDS, JArr [JStr ''U9''])] init) = Inl (HTTPError 503)
   \<and> net sample (ncalls init)
     \<lparr>method_name = PHAB_USERS,
        params = JObj (conduit_params sample [(PHIDS, JArr [JStr ''U1''])])\<rparr> = Reply 200 user1
   \<and> fst (conduit_call sample PHAB_USERS [(PHIDS, JArr [JStr ''U1''])] init) = Inr user1
   \<and> net sample (ncalls init)
     \<lparr>method_name = PHAB_USERS,
        params = JObj (conduit_params sample [(PHIDS, JArr [JStr ''U6''])])\<rparr> = Reply 200 no_code
   \<and> \<not> http_error 200
   \<and> loads sample no_code = Some (JObj [(''result'', JArr [])])
   \<and> getitem (JObj [(''result'', JArr [])]) ''error_code'' = Inl KeyError
   \<and> fst (conduit_call sample PHAB_USERS [(PHIDS, JArr [JStr ''U6''])] init) = Inl KeyError"
proof -
  have n6: "net sample (ncalls init)
     \<lparr>method_name = PHAB_USERS,
        params = JObj (conduit_params sample [(PHIDS, JArr [JStr ''U6''])])\<rparr> = Reply 200 no_code"
    by (simp add: names conduit_params_def sample_simps init_def)
  have l6: "loads sample no_code = Some (JObj [(''result'', JArr [])])"
    by (simp add: sample_simps)
  have g6: "getitem (JObj [(''result'', JArr [])]) ''error_code'' = Inl KeyError"
    by simp
  have h6: "\<not> http_error 200" by (simp add: http_error_def)
  have k6: "fst (conduit_call sample PHAB_USERS [(PHIDS, JArr [JStr ''U6''])] init) = Inl KeyError"
    using conduit_call_outcome [OF n6] n6 l6 g6 h6 by blast
  have n7: "net sample (ncalls init)
     \<lparr>method_name = MANIPHEST_TRANSACTIONS,
        params = JObj (conduit_params sample [(PIDS, JArr [JNum 7])])\<rparr> = Reply 200 trans_error"
    by (simp add: names conduit_params_def sample_simps init_def)
  have n9: "net sample (ncalls init)
     \<lparr>method_name = PHAB_USERS,
        params = JObj (conduit_params sample [(PHIDS, JArr [JStr ''U9''])])\<rparr> = Reply 503 not_json"
    by (simp add: names conduit_params_def sample_simps init_def)
  have n1: "net sample (ncalls init)
     \<lparr>method_name = PHAB_USERS,
        params = JObj (conduit_params sample [(PHIDS, JArr [JStr ''U1''])])\<rparr> = Reply 200 user1"
    by (simp add: names conduit_params_def sample_simps init_def)
  show ?thesis
    using n7 n9 n1
      conduit_call_outcome [OF n7, where info = "JStr ''Task does not exist''"
        and code = "JStr ''ERR-CONDUIT-CORE''"]
      conduit_call_outcome [OF n9] conduit_call_outcome [OF n1, where r = user1]
      n6 l6 g6 h6 k6
    by (simp add: http_error_def sample_simps)
qed

theorem undecodable_body_counterexample:
  "net sample (ncalls init)
     \<lparr>method_name = PHAB_USERS,
        params = JObj (conduit_params sample [(PHIDS, JArr [JStr ''U8''])])\<rparr> = Reply 200 not_json
   \<and> \<not> http_error 200
   \<and> loads sample not_json = None
   \<and> fst (conduit_call sample PHAB_USERS [(PHIDS, JArr [JStr ''U8''])] init) = Inl ValueError"
  by (simp add: names monad program sample_simps init_def Let_def)

text \<open>
  C5. The transactions of a page are fetched, and their authors resolved, before the
  first task of the page is yielded: that phase yields nothing, and when it raises, the
  page raises the same error in the same state. In particular, when the bulk transactions
  request is answered by an error envelope (\<^verbatim>\<open>_call\<close> raises \<open>ConduitError\<close> with the server's
  message and code), the page raises that \<open>ConduitError\<close> with nothing yielded, and so does
  \<open>fetch_tasks\<close> in the round of that page.
\<close>

theorem transactions_error_aborts_page:
  assumes ids: "map_raise (\<lambda>t. getitem t ''id'') tasks = Inr ids"
  shows "yielded (new_events s (snd (fetch_and_parse_tasks_transactions env ids s))) = []
     \<and> (\<forall>e s1. fetch_and_parse_tasks_transactions env ids s = (Inl e, s1) \<longrightarrow>
           process_page env tasks s = (Inl e, s1))
     \<and> (\<forall>info code s1. transactions env ids s = (Inl (ConduitError info code), s1) \<longrightarrow>
           process_page env tasks s = (Inl (ConduitError info code), s1)
           \<and> yielded (new_events s s1) = [])
     \<and> (\<forall>ps s0 raw s1 info code s2.
           conduit_call env MANIPHEST_TASKS ps s0 = (Inr raw, s1) \<and>
           parse_tasks env raw = Inr tasks \<and> tasks \<noteq> [] \<and>
           transactions env ids (snd (push_cache_queue raw s1)) =
             (Inl (ConduitError info code), s2) \<longrightarrow>
           fetch_tasks env (Suc n) ps s0 = (Some (Inl (ConduitError info code)), s2)
           \<and> yielded (new_events s0 s2) = [])"
proof (intro conjI allI impI)
  show "yielded (new_events s (snd (fetch_and_parse_tasks_transactions env ids s))) = []"
    by (rule transactions_phase_no_yield)
next
  fix e s1
  assume "fetch_and_parse_tasks_transactions env ids s = (Inl e, s1)"
  then show "process_page env tasks s = (Inl e, s1)"
    using ids by (simp add: process_page_eq)
next
  fix info code s1
  assume t: "transactions env ids s = (Inl (ConduitError info code), s1)"
  then show "process_page env tasks s = (Inl (ConduitError info code), s1)"
    using ids transactions_phase_error [OF t] by (simp add: process_page_eq)
  show "yielded (new_events s s1) = []"
    using transactions_phase_no_yield [of s env ids] transactions_phase_error [OF t] by simp
next
  fix ps s0 raw s1 info code s2
  let ?s = "snd (push_cache_queue raw s1)"
  assume a: "conduit_call env MANIPHEST_TASKS ps s0 = (Inr raw, s1) \<and>
           parse_tasks env raw = Inr tasks \<and> tasks \<noteq> [] \<and>
           transactions env ids ?s = (Inl (ConduitError info code), s2)"
  from a have t: "transactions env ids ?s = (Inl (ConduitError info code), s2)" by blast
  from a have c: "conduit_call env MANIPHEST_TASKS ps s0 = (Inr raw, s1)" by blast
  from a have pt: "parse_tasks env raw = Inr tasks" and ne: "tasks \<noteq> []" by blast+
  have pp: "process_page env tasks ?s = (Inl (ConduitError info code), s2)"
    using ids transactions_phase_error [OF t] by (simp add: process_page_eq)
  show "fetch_tasks env (Suc n) ps s0 = (Some (Inl (ConduitError info code)), s2)"
    using c pt ne pp by (simp add: page_round_eq)
  have y: "yielded (new_events ?s s2) = []"
    using transactions_phase_no_yield [of ?s env ids] transactions_phase_error [OF t] by simp
  have "trace s2 = trace ?s @ new_events ?s s2"
    using pp by (rule process_page_extends)
  moreover have "trace ?s = trace s0 @ [Call \<lparr>method_name = MANIPHEST_TASKS,
      params = JObj (conduit_params env ps)\<rparr>, Push raw]"
    using c by (auto simp: conduit_call_eq push_cache_queue_def)
  ultimately have "trace s2 = trace s0 @ ([Call \<lparr>method_name = MANIPHEST_TASKS,
      params = JObj (conduit_params env ps)\<rparr>, Push raw] @ new_events ?s s2)"
    by simp
  from new_events_eq [OF this] y show "yielded (new_events s0 s2) = []"
    by (simp add: yielded_append)
qed

theorem transactions_error_aborts_page_witness:
  "map_raise (\<lambda>t. getitem t ''id'') [sample_task 7 ''U1''] = Inr [JNum 7]
   \<and> fst (transactions sample [JNum 7] init) =
       Inl (ConduitError (JStr ''Task does not exist'') (JStr ''ERR-CONDUIT-CORE''))
   \<and> fst (process_page sample [sample_task 7 ''U1''] init) =
       Inl (ConduitError (JStr ''Task does not exist'') (JStr ''ERR-CONDUIT-CORE''))
   \<and> yielded (new_events init (snd (process_page sample [sample_task 7 ''U1''] init))) = []"
proof -
  let ?s1 = "snd (transactions sample [JNum 7] init)"
  have ids: "map_raise (\<lambda>t. getitem t ''id'') [sample_task 7 ''U1''] = Inr [JNum 7]"
    by (simp add: sample_task_def)
  have tf: "fst (transactions sample [JNum 7] init) =
       Inl (ConduitError (JStr ''Task does not exist'') (JStr ''ERR-CONDUIT-CORE''))"
    by (simp add: names monad program sample_simps init_def Let_def)
  then have t: "transactions sample [JNum 7] init =
       (Inl (ConduitError (JStr ''Task does not exist'') (JStr ''ERR-CONDUIT-CORE'')), ?s1)"
    by (simp add: prod_eq_iff)
  from transactions_error_aborts_page [OF ids, of init sample] t
  have "process_page sample [sample_task 7 ''U1''] init =
       (Inl (ConduitError (JStr ''Task does not exist'') (JStr ''ERR-CONDUIT-CORE'')), ?s1)
     \<and> yielded (new_events init ?s1) = []"
    by blast
  with ids tf show ?thesis by simp
qed

text \<open>
  C4. Take a round whose listing request was answered with the page \<open>raw\<close>. When the
  cursor \<^verbatim>\<open>result.cursor.after\<close> of \<open>raw\<close> is empty (\<^verbatim>\<open>None\<close>, an empty string, anything
  false in Python's sense) or cannot be read at all, this round is the last one whatever
  number of rounds is allowed: the loop returns, and returns what it returns when allowed
  one round. If the page was processed, the end is the normal end of the generator for an
  empty cursor, and the exception of the subscript for a missing one, both after the
  flush of the page. When the page parses to an empty task list the loop ends normally
  right after the push of the page, whatever its cursor.
\<close>

theorem pagination_stops:
  assumes call: "conduit_call env MANIPHEST_TASKS ps s = (Inr raw, s1)"
  shows "(cursor_after env raw = Inl e \<or> (cursor_after env raw = Inr a \<and> \<not> truthy a) \<longrightarrow>
            fetch_tasks env (Suc n) ps s = fetch_tasks env (Suc 0) ps s \<and>
            fst (fetch_tasks env (Suc n) ps s) \<noteq> None)
     \<and> (parse_tasks env raw = Inr [] \<longrightarrow>
            fetch_tasks env (Suc n) ps s = (Some (Inr ()), snd (push_cache_queue raw s1)))
     \<and> (\<forall>tasks s3. parse_tasks env raw = Inr tasks \<and> tasks \<noteq> [] \<and>
            process_page env tasks (snd (push_cache_queue raw s1)) = (Inr (), s3) \<longrightarrow>
            (cursor_after env raw = Inr a \<and> \<not> truthy a \<longrightarrow>
               fetch_tasks env (Suc n) ps s = (Some (Inr ()), snd (flush_cache_queue s3))) \<and>
            (cursor_after env raw = Inl e \<longrightarrow>
               fetch_tasks env (Suc n) ps s = (Some (Inl e), snd (flush_cache_queue s3))))"
  using call
  by (auto simp: page_round_eq split: sum.splits prod.splits)

theorem pagination_stops_witness:
  "fst (conduit_call sample MANIPHEST_TASKS [(PAFTER, JStr ''3'')] init) = Inr page3
   \<and> cursor_after sample page3 = Inr JNull \<and> \<not> truthy JNull
   \<and> parse_tasks sample page3 = Inr []
   \<and> fetch_tasks sample (Suc 5) [(PAFTER, JStr ''3'')] init =
       fetch_tasks sample (Suc 0) [(PAFTER, JStr ''3'')] init
   \<and> fst (fetch_tasks sample (Suc 5) [(PAFTER, JStr ''3'')] init) = Some (Inr ())"
proof -
  let ?s1 = "snd (conduit_call sample MANIPHEST_TASKS [(PAFTER, JStr ''3'')] init)"
  have f: "fst (conduit_call sample MANIPHEST_TASKS [(PAFTER, JStr ''3'')] init) = Inr page3"
    by (simp add: names monad program sample_simps init_def Let_def)
  then have c: "conduit_call sample MANIPHEST_TASKS [(PAFTER, JStr ''3'')] init = (Inr page3, ?s1)"
    by (simp add: prod_eq_iff)
  have cur: "cursor_after sample page3 = Inr JNull"
    by (simp add: cursor_after_def sample_simps)
  have emp: "parse_tasks sample page3 = Inr []"
    by (simp add: parse_tasks_def sample_simps)
  note stops = pagination_stops [OF c, where a = JNull and n = 5]
  from stops cur have same: "fetch_tasks sample (Suc 5) [(PAFTER, JStr ''3'')] init =
       fetch_tasks sample (Suc 0) [(PAFTER, JStr ''3'')] init"
    by (simp del: fetch_tasks.simps)
  from stops emp have "fetch_tasks sample (Suc 5) [(PAFTER, JStr ''3'')] init =
       (Some (Inr ()), snd (push_cache_queue page3 ?s1))"
    by blast
  then have "fst (fetch_tasks sample (Suc 5) [(PAFTER, JStr ''3'')] init) = Some (Inr ())"
    by (simp del: fetch_tasks.simps)
  moreover have "\<not> truthy JNull" by simp
  ultimately show ?thesis using f cur emp same by blast
qed

text \<open>
  C9. When \<open>fetch\<close> leaves its loop by the \<^verbatim>\<open>break\<close> on an empty page, it ends normally, the
  last two events are the request of that page and the push of its raw response (no
  flush follows), and the queue holds exactly that response. The next \<open>fetch\<close> starts
  from the purged state: the queue is empty there and nothing was added to the durable
  cache.
\<close>

theorem break_leaves_queue_unflushed:
  assumes "left_by_break env n (tasks_params ts) (snd (purge_cache_queue s))"
  shows "fst (fetch env n ts s) = Some (Inr ())
     \<and> (\<exists>es req raw. trace (snd (fetch env n ts s)) = es @ [Call req, Push raw] \<and>
            method_name req = MANIPHEST_TASKS \<and> parse_tasks env raw = Inr [] \<and>
            cache_queue (snd (fetch env n ts s)) = [raw])
     \<and> fetch env m ts' (snd (fetch env n ts s)) =
         fetch_tasks env m (tasks_params ts') (snd (purge_cache_queue (snd (fetch env n ts s))))
     \<and> cache_queue (snd (purge_cache_queue (snd (fetch env n ts s)))) = []
     \<and> stored (snd (purge_cache_queue (snd (fetch env n ts s)))) = stored (snd (fetch env n ts s))"
proof -
  have "cache_queue (snd (purge_cache_queue s)) = []"
    by (simp add: purge_cache_queue_def)
  from fetch_tasks_left_by_break [OF assms this] show ?thesis
    by (simp add: fetch_def purge_cache_queue_def)
qed

theorem break_leaves_queue_unflushed_witness:
  "left_by_break sample 3 (tasks_params 0) (snd (purge_cache_queue init))
   \<and> fst (fetch sample 3 0 init) = Some (Inr ())
   \<and> cache_queue (snd (fetch sample 3 0 init)) = [page3]
   \<and> stored (snd (fetch sample 3 0 init)) =
       [[page1, trans12, user1, user2], [page2, trans3]]"
proof -
  have l: "left_by_break sample 3 (tasks_params 0) (snd (purge_cache_queue init))"
    by (simp add: names monad program sample_simps init_def Let_def numeral_3_eq_3)
  have "cache_queue first_run = [page3]
     \<and> stored first_run = [[page1, trans12, user1, user2], [page2, trans3]]"
    by (simp add: first_run_eq)
  with l break_leaves_queue_unflushed [OF l, of 0 0] show ?thesis
    by (simp add: first_run_def)
qed

text \<open>
  C10. On a miss (the identifier is hashable and not in \<^verbatim>\<open>self._users\<close>) with a lookup
  that \<^verbatim>\<open>_call\<close> answered by \<open>raw\<close>: if the \<^verbatim>\<open>result\<close> array of \<open>raw\<close> is empty,
  \<^verbatim>\<open>__get_or_fetch_user\<close> raises \<open>IndexError\<close> (which is neither \<open>ConduitError\<close> nor
  \<open>HTTPError\<close>) after the push of \<open>raw\<close>, and the loop over the tasks of the page raises it
  at a task with this author, yielding neither this task nor a later one; if the array is
  not empty, its first element is returned and stored under the identifier.
\<close>

theorem empty_user_result:
  assumes "hashable user_id" and "map_of (users s) (dict_key user_id) = None"
    and "client_users env [user_id] s = (Inr raw, s1)"
    and "loads env raw = Some j"
  shows "(getitem j ''result'' = Inr (JArr []) \<longrightarrow>
            get_or_fetch_user env user_id s = (Inl IndexError, snd (push_cache_queue raw s1)))
     \<and> (\<forall>tts task task_id owner_id rest.
            getitem j ''result'' = Inr (JArr []) \<and> getitem task ''id'' = Inr task_id \<and>
            get_field task ''authorPHID'' = Inr user_id \<and>
            get_field task ''ownerPHID'' = Inr owner_id \<longrightarrow>
            mapM (enrich_task env tts) (task # rest) s =
              (Inl IndexError, snd (push_cache_queue raw s1)))
     \<and> (\<forall>u us. getitem j ''result'' = Inr (JArr (u # us)) \<longrightarrow>
            get_or_fetch_user env user_id s =
              (Inr u, (snd (push_cache_queue raw s1))\<lparr>users := AList.update (dict_key user_id) u (users s)\<rparr>))"
proof -
  have miss: "getitem j ''result'' = Inr (JArr []) \<Longrightarrow>
      get_or_fetch_user env user_id s = (Inl IndexError, snd (push_cache_queue raw s1))"
    using assms
    by (auto simp: get_or_fetch_user_def fetch_and_parse_users_def bind_def lift_def
        parse_users_def push_cache_queue_def client_users_def conduit_call_eq)
  have found: "getitem j ''result'' = Inr (JArr (u # us)) \<Longrightarrow>
      get_or_fetch_user env user_id s =
        (Inr u, (snd (push_cache_queue raw s1))\<lparr>users := AList.update (dict_key user_id) u (users s)\<rparr>)"
    for u us
    using assms
    by (auto simp: get_or_fetch_user_def fetch_and_parse_users_def bind_def lift_def
        parse_users_def push_cache_queue_def client_users_def conduit_call_eq)
  have loop: "mapM (enrich_task env tts) (task # rest) s =
      (Inl IndexError, snd (push_cache_queue raw s1))"
    if "getitem j ''result'' = Inr (JArr [])" "getitem task ''id'' = Inr task_id"
      "get_field task ''authorPHID'' = Inr user_id" "get_field task ''ownerPHID'' = Inr owner_id"
    for tts task task_id owner_id rest
    using that miss by (simp add: enrich_task_def bind_def lift_def)
  show ?thesis using miss found loop by blast
qed

theorem empty_user_result_witness:
  "hashable (JStr ''U7'') \<and> map_of (users init) (dict_key (JStr ''U7'')) = None
   \<and> fst (client_users sample [JStr ''U7''] init) = Inr user_none
   \<and> loads sample user_none = Some (envelope (JArr []))
   \<and> getitem (envelope (JArr [])) ''result'' = Inr (JArr [])
   \<and> fst (get_or_fetch_user sample (JStr ''U7'') init) = Inl IndexError"
proof -
  let ?s1 = "snd (client_users sample [JStr ''U7''] init)"
  have f: "fst (client_users sample [JStr ''U7''] init) = Inr user_none"
    by (simp add: names monad program sample_simps init_def Let_def)
  then have c: "client_users sample [JStr ''U7''] init = (Inr user_none, ?s1)"
    by (simp add: prod_eq_iff)
  have h: "hashable (JStr ''U7'')" and m: "map_of (users init) (dict_key (JStr ''U7'')) = None"
    by (simp_all add: init_def)
  have l: "loads sample user_none = Some (envelope (JArr []))"
    by (simp add: sample_simps)
  have g: "getitem (envelope (JArr [])) ''result'' = Inr (JArr [])"
    by (simp add: envelope_def)
  from empty_user_result [OF h m c l] g f h m l show ?thesis by simp
qed

text \<open>
  C3, as the code has it. \<^verbatim>\<open>self._users\<close> is created empty by the constructor, and \<open>fetch\<close>
  does not create it again: a run of \<open>fetch\<close> is the loop started in the state it was
  called in, with the queue purged and the users cache as it was, and whatever the cache
  held before the run it still holds after it. The purge is the first event of the run,
  before any request, and leaves the queue empty.
\<close>

theorem users_cache_outlives_fetch:
  "users init = []
   \<and> fetch env n ts s = fetch_tasks env n (tasks_params ts) (snd (purge_cache_queue s))
   \<and> users (snd (purge_cache_queue s)) = users s
   \<and> cache_queue (snd (purge_cache_queue s)) = []
   \<and> (map_of (users s) k = Some v \<longrightarrow> map_of (users (snd (fetch env n ts s))) k = Some v)
   \<and> new_events s (snd (fetch env n ts s)) =
       Purge # new_events (snd (purge_cache_queue s)) (snd (fetch env n ts s))"
  using fetch_keeps [of s env n ts] fetch_starts_with_purge [of s env n ts]
  by (simp add: init_def fetch_def purge_cache_queue_def keeps_def)

theorem users_cache_outlives_fetch_witness:
  "map_of (users (init\<lparr>users := [(JStr ''U1'', JNum 5)]\<rparr>)) (JStr ''U1'') = Some (JNum 5)
   \<and> map_of (users (snd (fetch sample 3 0 (init\<lparr>users := [(JStr ''U1'', JNum 5)]\<rparr>)))) (JStr ''U1'') =
       Some (JNum 5)"
proof -
  have "map_of (users (init\<lparr>users := [(JStr ''U1'', JNum 5)]\<rparr>)) (JStr ''U1'') = Some (JNum 5)"
    by simp
  with users_cache_outlives_fetch [of sample 3 0 "init\<lparr>users := [(JStr ''U1'', JNum 5)]\<rparr>"
      "JStr ''U1''" "JNum 5"]
  show ?thesis by blast
qed

theorem users_cache_carried_over_counterexample:
  "users first_run =
     [(JStr ''U1'', JObj [(''phid'', JStr ''U1'')]), (JStr ''U2'', JObj [(''phid'', JStr ''U2'')])]
   \<and> users (snd (purge_cache_queue first_run)) \<noteq> []
   \<and> lookups (new_events first_run (snd (fetch sample 3 0 first_run))) = []
   \<and> length (yielded (new_events first_run (snd (fetch sample 3 0 first_run)))) = 3"
  by (simp add: first_run_eq names monad program sample_simps Let_def numeral_3_eq_3
      new_events_def lookups_def lookup_of_def)

text \<open>
  C8. \<^verbatim>\<open>parse_tasks\<close> returns the elements of \<^verbatim>\<open>result.data\<close> of a listing response as they
  were decoded, nothing added, dropped or changed. The task a successful run of the loop
  body yields has every key of the parsed task, with the same value under every key but
  \<^verbatim>\<open>fields\<close> and \<^verbatim>\<open>transactions\<close>, and its \<^verbatim>\<open>fields\<close> has every key of the parsed task's
  \<^verbatim>\<open>fields\<close>, with the same value under every key but \<^verbatim>\<open>authorData\<close> and \<^verbatim>\<open>ownerData\<close>; the
  only keys it can have beyond those of the parsed task are \<^verbatim>\<open>transactions\<close>, and in
  \<^verbatim>\<open>fields\<close>, \<^verbatim>\<open>authorData\<close> and \<^verbatim>\<open>ownerData\<close>.
\<close>

theorem enrichment_only_adds:
  "(loads env raw = Some j \<and> getitem j ''result'' = Inr res \<and>
      getitem res ''data'' = Inr (JArr tasks) \<longrightarrow> parse_tasks env raw = Inr tasks)
   \<and> (enrich_task env tts task s = (Inr (), s') \<longrightarrow>
        (\<exists>task'. yielded (new_events s s') = [task'] \<and>
           (\<forall>k v. getitem task k = Inr v \<longrightarrow>
              (\<exists>v'. getitem task' k = Inr v' \<and>
                 (k \<noteq> ''fields'' \<and> k \<noteq> ''transactions'' \<longrightarrow> v' = v))) \<and>
           (\<forall>k v. get_field task k = Inr v \<longrightarrow>
              (\<exists>v'. get_field task' k = Inr v' \<and>
                 (k \<noteq> ''authorData'' \<and> k \<noteq> ''ownerData'' \<longrightarrow> v' = v))) \<and>
           (\<forall>k v'. getitem task' k = Inr v' \<longrightarrow>
              k = ''transactions'' \<or> (\<exists>v. getitem task k = Inr v)) \<and>
           (\<forall>k v'. get_field task' k = Inr v' \<longrightarrow>
              k = ''authorData'' \<or> k = ''ownerData'' \<or> (\<exists>v. get_field task k = Inr v))))"
proof (intro conjI impI)
  assume "loads env raw = Some j \<and> getitem j ''result'' = Inr res \<and>
      getitem res ''data'' = Inr (JArr tasks)"
  then show "parse_tasks env raw = Inr tasks"
    by (simp add: parse_tasks_def)
next
  assume "enrich_task env tts task s = (Inr (), s')"
  from enrich_task_yields_one [OF this] obtain kvs fs author owner trs where
    task: "task = JObj kvs" and f: "map_of kvs ''fields'' = Some (JObj fs)" and
    y: "yielded (new_events s s') = [enriched_task kvs fs author owner trs]"
    by blast
  let ?t = "enriched_task kvs fs author owner trs"
  have 1: "\<forall>k v. getitem task k = Inr v \<longrightarrow>
      (\<exists>v'. getitem ?t k = Inr v' \<and> (k \<noteq> ''fields'' \<and> k \<noteq> ''transactions'' \<longrightarrow> v' = v))"
    by (simp add: enriched_task_keeps task)
  have gf: "get_field task k = getitem (JObj fs) k" for k
    using task f by (simp add: get_field_def)
  have 2: "\<forall>k v. get_field task k = Inr v \<longrightarrow>
      (\<exists>v'. get_field ?t k = Inr v' \<and> (k \<noteq> ''authorData'' \<and> k \<noteq> ''ownerData'' \<longrightarrow> v' = v))"
    by (simp add: enriched_task_fields gf)
  have 3: "\<forall>k v'. getitem ?t k = Inr v' \<longrightarrow>
      k = ''transactions'' \<or> (\<exists>v. getitem task k = Inr v)"
    using f by (auto simp: enriched_task_keeps task)
  have 4: "\<forall>k v'. get_field ?t k = Inr v' \<longrightarrow>
      k = ''authorData'' \<or> k = ''ownerData'' \<or> (\<exists>v. get_field task k = Inr v)"
    by (auto simp: enriched_task_fields gf)
  from y 1 2 3 4 show "\<exists>task'. yielded (new_events s s') = [task'] \<and>
           (\<forall>k v. getitem task k = Inr v \<longrightarrow>
              (\<exists>v'. getitem task' k = Inr v' \<and>
                 (k \<noteq> ''fields'' \<and> k \<noteq> ''transactions'' \<longrightarrow> v' = v))) \<and>
           (\<forall>k v. get_field task k = Inr v \<longrightarrow>
              (\<exists>v'. get_field task' k = Inr v' \<and>
                 (k \<noteq> ''authorData'' \<and> k \<noteq> ''ownerData'' \<longrightarrow> v' = v))) \<and>
           (\<forall>k v'. getitem task' k = Inr v' \<longrightarrow>
              k = ''transactions'' \<or> (\<exists>v. getitem task k = Inr v)) \<and>
           (\<forall>k v'. get_field task' k = Inr v' \<longrightarrow>
              k = ''authorData'' \<or> k = ''ownerData'' \<or> (\<exists>v. get_field task k = Inr v))"
    by blast
qed

theorem enrichment_only_adds_witness:
  "loads sample page_last = Some (listing [sample_task 3 ''U1''] JNull)
   \<and> parse_tasks sample page_last = Inr [sample_task 3 ''U1'']
   \<and> fst (enrich_task sample (JObj [(''3'', JArr [])]) (sample_task 3 ''U1'') init) = Inr ()
   \<and> getitem (sample_task 3 ''U1'') ''id'' = Inr (JNum 3)
   \<and> (\<exists>task'. yielded (new_events init
          (snd (enrich_task sample (JObj [(''3'', JArr [])]) (sample_task 3 ''U1'') init))) = [task']
        \<and> getitem task' ''id'' = Inr (JNum 3))"
proof -
  let ?s' = "snd (enrich_task sample (JObj [(''3'', JArr [])]) (sample_task 3 ''U1'') init)"
  have l: "loads sample page_last = Some (listing [sample_task 3 ''U1''] JNull)"
    by (simp add: sample_simps)
  have p: "parse_tasks sample page_last = Inr [sample_task 3 ''U1'']"
    using enrichment_only_adds [of sample page_last "listing [sample_task 3 ''U1''] JNull"
        "JObj [(''data'', JArr [sample_task 3 ''U1'']), (''cursor'', JObj [(''after'', JNull)])]"
        "[sample_task 3 ''U1'']"] l
    by (simp add: listing_def envelope_def)
  have f: "fst (enrich_task sample (JObj [(''3'', JArr [])]) (sample_task 3 ''U1'') init) = Inr ()"
    by (simp add: names monad program sample_simps init_def Let_def)
  then have e: "enrich_task sample (JObj [(''3'', JArr [])]) (sample_task 3 ''U1'') init = (Inr (), ?s')"
    by (simp add: prod_eq_iff)
  have g: "getitem (sample_task 3 ''U1'') ''id'' = Inr (JNum 3)"
    by (simp add: sample_task_def)
  from enrichment_only_adds [of sample page_last "listing [sample_task 3 ''U1''] JNull"
        "JObj [(''data'', JArr [sample_task 3 ''U1'']), (''cursor'', JObj [(''after'', JNull)])]"
        "[sample_task 3 ''U1'']" "JObj [(''3'', JArr [])]" "sample_task 3 ''U1''" init ?s'] e g
  obtain task' where y: "yielded (new_events init ?s') = [task']"
    and k: "\<forall>k v. getitem (sample_task 3 ''U1'') k = Inr v \<longrightarrow>
              (\<exists>v'. getitem task' k = Inr v' \<and>
                 (k \<noteq> ''fields'' \<and> k \<noteq> ''transactions'' \<longrightarrow> v' = v))"
    by blast
  from k [rule_format, OF g] have "getitem task' ''id'' = Inr (JNum 3)" by auto
  with y have "\<exists>task'. yielded (new_events init ?s') = [task'] \<and> getitem task' ''id'' = Inr (JNum 3)"
    by blast
  with l p f g show ?thesis by blast
qed






end
